theory Spec2Isabelle
  imports Main "HOL-Library.Sublist" "HOL-Library.Char_ord" "HOL-Library.List_Lexorder"
    "HOL-Library.Multiset"
    "HOL-Library.AList"
begin

section \<open>Characters and strings as Python sees them\<close>

text \<open>
  A Python \<open>str\<close> is modelled as a HOL \<open>string\<close>, one \<open>char\<close> per code point, which
  covers the code points 0..255 (ASCII and Latin-1). The character tests below are the
  ones CPython applies to code points in that range: \<open>str.isspace\<close> and the regex class
  \<open>\s\<close> (9-13, 28-31, 32, 133, 160), the regex class \<open>\d\<close> (the ten ASCII digits), the
  regex class \<open>\w\<close> (alphanumerics and the underscore), and \<open>str.lower\<close>.
\<close>

definition is_space :: "char \<Rightarrow> bool" where
  "is_space c =
     (let n = (of_char c :: nat)
      in (9 \<le> n \<and> n \<le> 13) \<or> (28 \<le> n \<and> n \<le> 32) \<or> n = 133 \<or> n = 160)"

definition is_digit :: "char \<Rightarrow> bool" where
  "is_digit c = (let n = (of_char c :: nat) in 48 \<le> n \<and> n \<le> 57)"

definition is_ascii_alpha :: "char \<Rightarrow> bool" where
  "is_ascii_alpha c =
     (let n = (of_char c :: nat) in (65 \<le> n \<and> n \<le> 90) \<or> (97 \<le> n \<and> n \<le> 122))"

definition is_word :: "char \<Rightarrow> bool" where
  "is_word c =
     (let n = (of_char c :: nat)
      in is_digit c \<or> is_ascii_alpha c \<or> n = 95 \<or> n = 170 \<or> n = 178 \<or> n = 179
         \<or> n = 181 \<or> n = 185 \<or> n = 186 \<or> (188 \<le> n \<and> n \<le> 190)
         \<or> (192 \<le> n \<and> n \<le> 214) \<or> (216 \<le> n \<and> n \<le> 246) \<or> 248 \<le> n)"

definition lower_char :: "char \<Rightarrow> char" where
  "lower_char c =
     (let n = (of_char c :: nat)
      in if (65 \<le> n \<and> n \<le> 90) \<or> (192 \<le> n \<and> n \<le> 222 \<and> n \<noteq> 215)
         then char_of (n + 32) else c)"

definition py_lower :: "string \<Rightarrow> string" where
  "py_lower s = map lower_char s"

definition py_strip :: "string \<Rightarrow> string" where
  "py_strip s = rev (dropWhile is_space (rev (dropWhile is_space s)))"

definition startswith :: "string \<Rightarrow> string \<Rightarrow> bool" where
  "startswith s p = (take (length p) s = p)"

definition endswith :: "string \<Rightarrow> string \<Rightarrow> bool" where
  "endswith s p = (length p \<le> length s \<and> drop (length s - length p) s = p)"

text \<open>\<open>needle in hay\<close> on strings: a left-to-right scan for the needle.\<close>

fun py_in :: "string \<Rightarrow> string \<Rightarrow> bool" where
  "py_in needle [] = (needle = [])"
| "py_in needle (c # cs) = (startswith (c # cs) needle \<or> py_in needle cs)"

section \<open>Text Normalizer: \<open>clean_text\<close>\<close>

text \<open>\<open>re.sub(r"\s+", " ", s)\<close>: every maximal run of whitespace becomes one space.\<close>

function sub_ws :: "string \<Rightarrow> string" where
  "sub_ws [] = []"
| "sub_ws (c # cs) =
     (if is_space c then CHR '' '' # sub_ws (dropWhile is_space cs) else c # sub_ws cs)"
  by pat_completeness auto
termination
  by (relation "measure length") (auto simp: length_dropWhile_le less_Suc_eq_le)

text \<open>\<open>re.sub(r"\s+", " ", (s or "")).strip()\<close>; an absent argument counts as \<open>""\<close>.\<close>

definition clean_text :: "string option \<Rightarrow> string" where
  "clean_text s = py_strip (sub_ws (case s of None \<Rightarrow> [] | Some x \<Rightarrow> x))"

section \<open>Regular expressions: a backtracking matcher\<close>

text \<open>
  The patterns of the source are kept as data. \<open>Rep greedy lo hi P\<close> is a repetition
  \<open>{lo,hi}\<close> of a character class (\<open>hi = None\<close>: unbounded), greedy or lazy; \<open>Grp n r\<close>
  is capture group \<open>n\<close>; \<open>Look r\<close> is the lookahead \<open>(?=r)\<close>; \<open>Eol\<close> is \<open>$\<close> and
  \<open>WordB\<close> is \<open>\b\<close>.

  A matcher state is the text already passed (reversed), the text still ahead, and the
  groups captured so far. \<open>rmatch\<close> returns every way the pattern can match at the
  state, in the order in which a backtracking matcher tries them, so the head of the list
  is the match Python's \<open>re\<close> reports. The first argument is the flag \<open>re.IGNORECASE\<close>.
\<close>

datatype rx =
    Lit char
  | Cls "char \<Rightarrow> bool"
  | Eps
  | Seq rx rx
  | Alt rx rx
  | Rep bool nat "nat option" "char \<Rightarrow> bool"
  | Grp nat rx
  | Look rx
  | Eol
  | WordB

type_synonym mstate = "string \<times> string \<times> (nat \<times> string) list"

definition max_run :: "(char \<Rightarrow> bool) \<Rightarrow> nat option \<Rightarrow> string \<Rightarrow> nat" where
  "max_run P hi s =
     (let r = length (takeWhile P s) in case hi of None \<Rightarrow> r | Some h \<Rightarrow> min h r)"

definition rep_lens :: "bool \<Rightarrow> nat \<Rightarrow> nat option \<Rightarrow> (char \<Rightarrow> bool) \<Rightarrow> string \<Rightarrow> nat list" where
  "rep_lens greedy lo hi P s =
     (let ks = [lo ..< Suc (max_run P hi s)] in if greedy then rev ks else ks)"

definition at_word :: "string \<Rightarrow> bool" where
  "at_word s = (case s of [] \<Rightarrow> False | c # _ \<Rightarrow> is_word c)"

fun rmatch :: "bool \<Rightarrow> rx \<Rightarrow> mstate \<Rightarrow> mstate list" where
  "rmatch ic (Lit c) (seen, ahead, gs) =
     (case ahead of
        [] \<Rightarrow> []
      | x # xs \<Rightarrow>
          if (if ic then lower_char x = lower_char c else x = c)
          then [(x # seen, xs, gs)] else [])"
| "rmatch ic (Cls P) (seen, ahead, gs) =
     (case ahead of [] \<Rightarrow> [] | x # xs \<Rightarrow> if P x then [(x # seen, xs, gs)] else [])"
| "rmatch ic Eps st = [st]"
| "rmatch ic (Seq a b) st = concat (map (rmatch ic b) (rmatch ic a st))"
| "rmatch ic (Alt a b) st = rmatch ic a st @ rmatch ic b st"
| "rmatch ic (Rep greedy lo hi P) (seen, ahead, gs) =
     map (\<lambda>k. (rev (take k ahead) @ seen, drop k ahead, gs)) (rep_lens greedy lo hi P ahead)"
| "rmatch ic (Grp n r) (seen, ahead, gs) =
     map (\<lambda>(seen', ahead', gs').
            (seen', ahead', (n, take (length ahead - length ahead') ahead) # gs'))
         (rmatch ic r (seen, ahead, gs))"
| "rmatch ic (Look r) st = (case rmatch ic r st of [] \<Rightarrow> [] | _ # _ \<Rightarrow> [st])"
| "rmatch ic Eol (seen, ahead, gs) =
     (if ahead = [] \<or> ahead = [CHR 0x0A] then [(seen, ahead, gs)] else [])"
| "rmatch ic WordB (seen, ahead, gs) =
     (if at_word seen \<noteq> at_word ahead then [(seen, ahead, gs)] else [])"

text \<open>\<open>re.search\<close>: the first start position, left to right, at which the pattern matches.\<close>

fun re_search_from :: "bool \<Rightarrow> rx \<Rightarrow> string \<Rightarrow> string \<Rightarrow> mstate option" where
  "re_search_from ic r seen [] =
     (case rmatch ic r (seen, [], []) of [] \<Rightarrow> None | m # _ \<Rightarrow> Some m)"
| "re_search_from ic r seen (c # cs) =
     (case rmatch ic r (seen, c # cs, []) of
        [] \<Rightarrow> re_search_from ic r (c # seen) cs
      | m # _ \<Rightarrow> Some m)"

definition re_search :: "bool \<Rightarrow> rx \<Rightarrow> string \<Rightarrow> mstate option" where
  "re_search ic r s = re_search_from ic r [] s"

text \<open>\<open>re.match\<close>: the pattern matched at the start of the text only.\<close>

definition re_match :: "bool \<Rightarrow> rx \<Rightarrow> string \<Rightarrow> mstate option" where
  "re_match ic r s = (case rmatch ic r ([], s, []) of [] \<Rightarrow> None | m # _ \<Rightarrow> Some m)"

definition group :: "mstate \<Rightarrow> nat \<Rightarrow> string option" where
  "group m n = (case m of (seen, ahead, gs) \<Rightarrow> map_of gs n)"

definition match_end :: "mstate \<Rightarrow> nat" where
  "match_end m = (case m of (seen, ahead, gs) \<Rightarrow> length seen)"

text \<open>
  A run of literal characters, as a pattern writes them and as \<open>re.escape(s)\<close> produces
  them: each character of \<open>s\<close> taken literally.
\<close>

definition lits :: "string \<Rightarrow> rx" where
  "lits s = foldr (\<lambda>c r. Seq (Lit c) r) s Eps"

definition seqs :: "rx list \<Rightarrow> rx" where
  "seqs rs = foldr Seq rs Eps"

fun alts :: "rx list \<Rightarrow> rx" where
  "alts [] = Eps"
| "alts [r] = r"
| "alts (r # rs) = Alt r (alts rs)"

definition ws_star :: rx where
  "ws_star = Rep True 0 None is_space"

section \<open>Label Extractor: \<open>find_label\<close>\<close>

definition LABELS :: "string list" where
  "LABELS =
     [''Agency'',
      ''Assistance Listings'',
      ''Posted date'',
      ''Closing'',
      ''Close date'',
      ''Closing date'',
      ''Archive date'',
      ''Funding opportunity number'',
      ''Cost sharing or matching requirement'',
      ''Funding instrument type'',
      ''Opportunity Category'',
      ''Opportunity Category Explanation'',
      ''Category of Funding Activity'',
      ''Category Explanation'',
      ''Last Updated'']"

text \<open>
  The pattern \<open>rf"{re.escape(label)}\s*:\s*(.*?)(?=\s*(?:{stop})\s*:|$)"\<close>, where
  \<open>stop\<close> joins the escaped other labels with \<open>|\<close>. The dot matches any character but
  the newline.
\<close>

definition other_labels :: "string \<Rightarrow> string list" where
  "other_labels label = filter (\<lambda>l. py_lower l \<noteq> py_lower label) LABELS"

definition label_stop :: "string \<Rightarrow> rx" where
  "label_stop label =
     Alt (seqs [ws_star, alts (map lits (other_labels label)), ws_star, Lit CHR '':''])
         Eol"

definition label_pattern :: "string \<Rightarrow> rx" where
  "label_pattern label =
     seqs [lits label, ws_star, Lit CHR '':'', ws_star,
           Grp 1 (Rep False 0 None (\<lambda>c. c \<noteq> CHR 0x0A)),
           Look (label_stop label)]"

text \<open>\<open>clean_text(m.group(1)) if m else None\<close>\<close>

definition find_label :: "string \<Rightarrow> string \<Rightarrow> string option" where
  "find_label txt label =
     (case re_search True (label_pattern label) txt of
        None \<Rightarrow> None
      | Some m \<Rightarrow> Some (clean_text (group m 1)))"

section \<open>Opportunity identifier: \<open>extract_opportunity_id\<close>\<close>

definition is_hex_or_dash :: "char \<Rightarrow> bool" where
  "is_hex_or_dash c =
     (let n = (of_char c :: nat)
      in is_digit c \<or> (97 \<le> n \<and> n \<le> 102) \<or> (65 \<le> n \<and> n \<le> 70) \<or> c = CHR ''-'')"

text \<open>\<open>r"/search-results-detail/(\d+)"\<close> and \<open>r"/opportunity/([0-9a-fA-F-]{16,})"\<close>\<close>

definition detail_pattern :: rx where
  "detail_pattern = seqs [lits ''/search-results-detail/'', Grp 1 (Rep True 1 None is_digit)]"

definition opportunity_pattern :: rx where
  "opportunity_pattern = seqs [lits ''/opportunity/'', Grp 1 (Rep True 16 None is_hex_or_dash)]"

definition extract_opportunity_id :: "string \<Rightarrow> string option" where
  "extract_opportunity_id url =
     (case re_search False detail_pattern url of
        Some m \<Rightarrow> group m 1
      | None \<Rightarrow>
          (case re_search False opportunity_pattern url of
             Some m \<Rightarrow> group m 1
           | None \<Rightarrow> None))"

section \<open>Date Normalizer: \<open>to_iso_date\<close>\<close>

subsection \<open>The library calls \<open>datetime.strptime\<close>, \<open>date\<close> and \<open>isoformat\<close>\<close>

text \<open>
  \<open>datetime.strptime(s, fmt)\<close> is CPython's \<open>_strptime\<close>: the format is turned into a
  regular expression (each directive a named group, each run of whitespace \<open>\s+\<close>,
  every other character literal), compiled with \<open>IGNORECASE\<close> and matched at the start of
  \<open>s\<close>; unmatched or unconverted text raises \<open>ValueError\<close>, and so does a year, month or
  day that is not a date of the calendar. Month names are those of the C locale.
\<close>

datatype py_exn = ValueError | TypeError | AttributeError

record date =
  year :: nat
  month :: nat
  day :: nat

definition in_range :: "char \<Rightarrow> char \<Rightarrow> char \<Rightarrow> bool" where
  "in_range lo hi c = ((of_char lo :: nat) \<le> of_char c \<and> (of_char c :: nat) \<le> of_char hi)"

definition f_month :: "string list" where
  "f_month = [''january'', ''february'', ''march'', ''april'', ''may'', ''june'', ''july'',
              ''august'', ''september'', ''october'', ''november'', ''december'']"

definition a_month :: "string list" where
  "a_month = [''jan'', ''feb'', ''mar'', ''apr'', ''may'', ''jun'', ''jul'', ''aug'', ''sep'',
              ''oct'', ''nov'', ''dec'']"

text \<open>A group is named by its directive letter; the group number is the letter's code.\<close>

definition gid :: "char \<Rightarrow> nat" where
  "gid c = of_char c"

text \<open>
  The directive table of \<open>TimeRE\<close>:
  \<open>d: (?P<d>3[0-1]|[1-2]\d|0[1-9]|[1-9]| [1-9])\<close>, \<open>m: (?P<m>1[0-2]|0[1-9]|[1-9])\<close>,
  \<open>Y: (?P<Y>\d\d\d\d)\<close>, and \<open>B\<close>, \<open>b\<close>: the month names, longest first
  (\<open>sorted(names, key=len, reverse=True)\<close>, a stable sort).
\<close>

definition directive_re :: "char \<Rightarrow> rx option" where
  "directive_re c =
     (if c = CHR ''d'' then
        Some (Grp (gid c)
          (alts [Seq (Lit CHR ''3'') (Cls (in_range CHR ''0'' CHR ''1'')),
                 Seq (Cls (in_range CHR ''1'' CHR ''2'')) (Cls is_digit),
                 Seq (Lit CHR ''0'') (Cls (in_range CHR ''1'' CHR ''9'')),
                 Cls (in_range CHR ''1'' CHR ''9''),
                 Seq (Lit CHR '' '') (Cls (in_range CHR ''1'' CHR ''9''))]))
      else if c = CHR ''m'' then
        Some (Grp (gid c)
          (alts [Seq (Lit CHR ''1'') (Cls (in_range CHR ''0'' CHR ''2'')),
                 Seq (Lit CHR ''0'') (Cls (in_range CHR ''1'' CHR ''9'')),
                 Cls (in_range CHR ''1'' CHR ''9'')]))
      else if c = CHR ''Y'' then
        Some (Grp (gid c) (seqs [Cls is_digit, Cls is_digit, Cls is_digit, Cls is_digit]))
      else if c = CHR ''B'' then
        Some (Grp (gid c)
          (alts (map lits [''september'', ''february'', ''november'', ''december'', ''january'',
                           ''october'', ''august'', ''march'', ''april'', ''june'', ''july'',
                           ''may''])))
      else if c = CHR ''b'' then
        Some (Grp (gid c) (alts (map lits a_month)))
      else None)"

text \<open>
  \<open>TimeRE.pattern\<close>: a directive becomes its pattern, a run of whitespace becomes \<open>\s+\<close>,
  any other character stands for itself. A directive outside the table (or a stray \<open>%\<close>)
  is the \<open>ValueError\<close> "bad directive".
\<close>

fun time_re :: "string \<Rightarrow> py_exn + rx" where
  "time_re [] = Inr Eps"
| "time_re [c] =
     (if c = CHR ''%'' then Inl ValueError
      else if is_space c then Inr (Seq (Rep True 1 None is_space) Eps)
      else Inr (Seq (Lit c) Eps))"
| "time_re (c # d # cs) =
     (if c = CHR ''%'' then
        (case directive_re d of
           None \<Rightarrow> Inl ValueError
         | Some r \<Rightarrow> (case time_re cs of Inl e \<Rightarrow> Inl e | Inr rest \<Rightarrow> Inr (Seq r rest)))
      else if is_space c \<and> is_space d then time_re (d # cs)
      else
        (case time_re (d # cs) of
           Inl e \<Rightarrow> Inl e
         | Inr rest \<Rightarrow>
             Inr (Seq (if is_space c then Rep True 1 None is_space else Lit c) rest)))"

text \<open>\<open>int(s)\<close> on the text of a numeric group: surrounding whitespace is ignored.\<close>

definition py_int :: "string \<Rightarrow> py_exn + nat" where
  "py_int s =
     (let t = py_strip s
      in if t \<noteq> [] \<and> list_all is_digit t
         then Inr (foldl (\<lambda>a c. 10 * a + (of_char c - 48)) 0 t)
         else Inl ValueError)"

text \<open>\<open>names.index(x)\<close>\<close>

fun index_of :: "'a list \<Rightarrow> 'a \<Rightarrow> py_exn + nat" where
  "index_of [] x = Inl ValueError"
| "index_of (y # ys) x =
     (if y = x then Inr 0
      else (case index_of ys x of Inl e \<Rightarrow> Inl e | Inr i \<Rightarrow> Inr (Suc i)))"

definition is_leap :: "nat \<Rightarrow> bool" where
  "is_leap y = (y mod 4 = 0 \<and> (y mod 100 \<noteq> 0 \<or> y mod 400 = 0))"

definition days_in_month :: "nat \<Rightarrow> nat \<Rightarrow> nat" where
  "days_in_month y m =
     (if m = 2 then (if is_leap y then 29 else 28)
      else if m = 4 \<or> m = 6 \<or> m = 9 \<or> m = 11 then 30 else 31)"

text \<open>The constructor \<open>date(year, month, day)\<close> with its range checks.\<close>

definition make_date :: "nat \<Rightarrow> nat \<Rightarrow> nat \<Rightarrow> py_exn + date" where
  "make_date y m d =
     (if 1 \<le> y \<and> y \<le> 9999 \<and> 1 \<le> m \<and> m \<le> 12 \<and> 1 \<le> d \<and> d \<le> days_in_month y m
      then Inr \<lparr>year = y, month = m, day = d\<rparr>
      else Inl ValueError)"

text \<open>The fields read from the groups of a match; a missing group keeps its default.\<close>

definition found_year :: "mstate \<Rightarrow> py_exn + nat" where
  "found_year found =
     (case group found (gid CHR ''Y'') of None \<Rightarrow> Inr 1900 | Some v \<Rightarrow> py_int v)"

definition found_month :: "mstate \<Rightarrow> py_exn + nat" where
  "found_month found =
     (case group found (gid CHR ''m'') of
        Some v \<Rightarrow> py_int v
      | None \<Rightarrow>
          (case group found (gid CHR ''B'') of
             Some v \<Rightarrow>
               (case index_of f_month (py_lower v) of Inl e \<Rightarrow> Inl e | Inr i \<Rightarrow> Inr (Suc i))
           | None \<Rightarrow>
               (case group found (gid CHR ''b'') of
                  Some v \<Rightarrow>
                    (case index_of a_month (py_lower v) of
                       Inl e \<Rightarrow> Inl e
                     | Inr i \<Rightarrow> Inr (Suc i))
                | None \<Rightarrow> Inr 1)))"

definition found_day :: "mstate \<Rightarrow> py_exn + nat" where
  "found_day found =
     (case group found (gid CHR ''d'') of None \<Rightarrow> Inr 1 | Some v \<Rightarrow> py_int v)"

definition strptime :: "string \<Rightarrow> string \<Rightarrow> py_exn + date" where
  "strptime s fmt =
     (case time_re fmt of
        Inl e \<Rightarrow> Inl e
      | Inr format_regex \<Rightarrow>
          (case re_match True format_regex s of
             None \<Rightarrow> Inl ValueError
           | Some found \<Rightarrow>
               if length s \<noteq> match_end found then Inl ValueError
               else
                 (case found_year found of
                    Inl e \<Rightarrow> Inl e
                  | Inr y \<Rightarrow>
                      (case found_month found of
                         Inl e \<Rightarrow> Inl e
                       | Inr m \<Rightarrow>
                           (case found_day found of
                              Inl e \<Rightarrow> Inl e
                            | Inr d \<Rightarrow> make_date y m d)))))"

text \<open>Decimal digits of a number, and \<open>"%04d-%02d-%02d"\<close> for \<open>date.isoformat()\<close>.\<close>

fun dec :: "nat \<Rightarrow> string" where
  "dec n = (if n < 10 then [''0123456789'' ! n] else dec (n div 10) @ [''0123456789'' ! (n mod 10)])"

declare dec.simps [simp del]

definition pad0 :: "nat \<Rightarrow> nat \<Rightarrow> string" where
  "pad0 w n = replicate (w - length (dec n)) CHR ''0'' @ dec n"

definition isoformat :: "date \<Rightarrow> string" where
  "isoformat d = pad0 4 (year d) @ ''-'' @ pad0 2 (month d) @ ''-'' @ pad0 2 (day d)"

subsection \<open>\<open>to_iso_date\<close>\<close>

text \<open>
  The loop over the formats: the first format that parses returns, a \<open>ValueError\<close> goes
  on to the next format (any other exception would propagate), and after the last format
  the cleaned string itself is returned.
\<close>

fun try_formats :: "string \<Rightarrow> string list \<Rightarrow> py_exn + string" where
  "try_formats s [] = Inr s"
| "try_formats s (fmt # fmts) =
     (case strptime s fmt of
        Inr d \<Rightarrow> Inr (isoformat d)
      | Inl ValueError \<Rightarrow> try_formats s fmts
      | Inl e \<Rightarrow> Inl e)"

definition date_formats :: "string list" where
  "date_formats = [''%m/%d/%Y'', ''%B %d, %Y'', ''%b %d, %Y'', ''%Y-%m-%d'']"

definition to_iso_date :: "string option \<Rightarrow> py_exn + string option" where
  "to_iso_date s =
     (case s of
        None \<Rightarrow> Inr None
      | Some x \<Rightarrow>
          if x = [] then Inr None
          else (case try_formats (clean_text (Some x)) date_formats of
                  Inl e \<Rightarrow> Inl e
                | Inr r \<Rightarrow> Inr (Some r)))"

section \<open>Date-Token Extractor: \<open>first_date_token\<close>\<close>

text \<open>
  \<open>r"\b([A-Za-z]+ \d{1,2}, \d{4})\b"\<close>, \<open>r"\b(\d{1,2}/\d{1,2}/\d{4})\b"\<close> and
  \<open>r"\b(\d{4}-\d{2}-\d{2})\b"\<close>
\<close>

definition month_day_year_pattern :: rx where
  "month_day_year_pattern =
     seqs [WordB,
           Grp 1 (seqs [Rep True 1 None is_ascii_alpha, Lit CHR '' '',
                        Rep True 1 (Some 2) is_digit, Lit CHR '','', Lit CHR '' '',
                        Rep True 4 (Some 4) is_digit]),
           WordB]"

definition slash_date_pattern :: rx where
  "slash_date_pattern =
     seqs [WordB,
           Grp 1 (seqs [Rep True 1 (Some 2) is_digit, Lit CHR ''/'',
                        Rep True 1 (Some 2) is_digit, Lit CHR ''/'',
                        Rep True 4 (Some 4) is_digit]),
           WordB]"

definition iso_date_pattern :: rx where
  "iso_date_pattern =
     seqs [WordB,
           Grp 1 (seqs [Rep True 4 (Some 4) is_digit, Lit CHR ''-'',
                        Rep True 2 (Some 2) is_digit, Lit CHR ''-'',
                        Rep True 2 (Some 2) is_digit]),
           WordB]"

definition first_date_token :: "string option \<Rightarrow> py_exn + string option" where
  "first_date_token s =
     (case s of
        None \<Rightarrow> Inr None
      | Some x \<Rightarrow>
          if x = [] then Inr None
          else
            (let t = clean_text (Some x)
             in case re_search False month_day_year_pattern t of
                  Some m \<Rightarrow> to_iso_date (group m 1)
                | None \<Rightarrow>
                    (case re_search False slash_date_pattern t of
                       Some m \<Rightarrow> to_iso_date (group m 1)
                     | None \<Rightarrow>
                         (case re_search False iso_date_pattern t of
                            Some m \<Rightarrow> Inr (group m 1)
                          | None \<Rightarrow> Inr None))))"

section \<open>Link Classifier: \<open>extract_links\<close>\<close>

text \<open>
  The parsed page, as far as the program reads it: the text of the first \<open>h1\<close> and of the
  \<open>title\<close> element (absent when the page has none), the stripped text nodes, and the
  \<open>a\<close> elements in document order, each with its \<open>href\<close> attribute if it has one.
\<close>

record anchor =
  href :: "string option"

record soup =
  h1_text :: "string option"
  title_text :: "string option"
  stripped_strings :: "string list"
  anchors :: "anchor list"

text \<open>\<open>soup.find_all("a", href=True)\<close>: the anchors that carry the attribute.\<close>

definition find_all_href :: "soup \<Rightarrow> anchor list" where
  "find_all_href sp = filter (\<lambda>a. href a \<noteq> None) (anchors sp)"

text \<open>The loop body; the state is the pair \<open>(external_links, documents)\<close>.\<close>

fun links_loop :: "anchor list \<Rightarrow> string list \<times> string list \<Rightarrow> string list \<times> string list" where
  "links_loop [] acc = acc"
| "links_loop (a # as) (external_links, documents) =
     (let h = py_strip (case href a of None \<Rightarrow> [] | Some x \<Rightarrow> x)
      in if h = [] then links_loop as (external_links, documents)
         else if startswith h ''http'' then
           (let low = py_lower h
            in if endswith low ''.pdf'' \<or> py_in ''.pdf?'' low
               then links_loop as (external_links, documents @ [h])
               else links_loop as (external_links @ [h], documents))
         else links_loop as (external_links, documents))"

definition extract_links :: "soup \<Rightarrow> string list \<times> string list" where
  "extract_links sp = links_loop (find_all_href sp) ([], [])"

text \<open>\<open>sorted(set(xs))\<close> on strings: distinct elements in code-point order.\<close>

definition sorted_set :: "string list \<Rightarrow> string list" where
  "sorted_set xs = sort (remdups xs)"

text \<open>Lines 275-277 of the program: both lists deduplicated and sorted.\<close>

definition classified_links :: "soup \<Rightarrow> string list \<times> string list" where
  "classified_links sp =
     (case extract_links sp of
        (external_links, documents) \<Rightarrow> (sorted_set external_links, sorted_set documents))"

section \<open>The record and the Tag Classifier: \<open>apply_tags\<close>\<close>

record Opportunity =
  opportunity_id :: "string option"
  opportunity_number :: "string option"
  opportunity_title :: "string option"
  opportunity_status :: "string option"
  agency_code :: "string option"
  category :: "string option"
  category_explanation :: "string option"
  post_date :: "string option"
  close_date :: "string option"
  close_date_description :: "string option"
  archive_date :: "string option"
  is_cost_sharing :: "bool option"
  expected_number_of_awards :: "int option"
  estimated_total_program_funding :: "int option"
  award_floor :: "int option"
  award_ceiling :: "int option"
  additional_info_url :: "string option"
  additional_info_url_description :: "string option"
  opportunity_assistance_listings :: "string list option"
  funding_instruments :: "string list option"
  funding_categories :: "string list option"
  funding_category_description :: "string option"
  applicant_types :: "string list option"
  applicant_eligibility_description :: "string option"
  agency_name :: "string option"
  top_level_agency_name :: "string option"
  agency_contact_description :: "string option"
  agency_email_address :: "string option"
  agency_email_address_description :: "string option"
  is_forecast :: "bool option"
  forecasted_post_date :: "string option"
  forecasted_close_date :: "string option"
  forecasted_close_date_description :: "string option"
  forecasted_award_date :: "string option"
  forecasted_project_start_date :: "string option"
  fiscal_year :: "int option"
  created_at :: "string option"
  updated_at :: "string option"
  summary_description :: "string option"
  tags :: "string list"

definition TAG_RULES :: "(string \<times> string list) list" where
  "TAG_RULES =
     [(''health_biomed'', [''health'', ''cdc'', ''nih'', ''disease'', ''registry'']),
      (''ai_ml'', [''machine learning'', ''artificial intelligence'', ''deep learning'', ''llm'',
                   ''nlp'']),
      (''cybersecurity'', [''cyber'', ''ransomware'', ''phishing'', ''zero trust'', ''infosec'']),
      (''education'', [''education'', ''teacher'', ''school'', ''curriculum'']),
      (''climate_environment'', [''climate'', ''environment'', ''sustainability'', ''emissions'']),
      (''energy'', [''energy'', ''renewable'', ''solar'', ''wind'', ''grid'', ''battery''])]"

text \<open>\<open>sep.join(xs)\<close>, and \<open>x or ""\<close>, \<open>x or []\<close> on an optional value.\<close>

fun py_join :: "string \<Rightarrow> string list \<Rightarrow> string" where
  "py_join sep [] = []"
| "py_join sep [x] = x"
| "py_join sep (x # y # ys) = x @ sep @ py_join sep (y # ys)"

definition or_empty :: "'a list option \<Rightarrow> 'a list" where
  "or_empty x = (case x of None \<Rightarrow> [] | Some v \<Rightarrow> v)"

definition hay_of :: "'a Opportunity_scheme \<Rightarrow> string" where
  "hay_of opp =
     py_lower (py_join '' ''
       [or_empty (opportunity_title opp),
        or_empty (agency_name opp),
        or_empty (category opp),
        py_join '' '' (or_empty (funding_categories opp)),
        or_empty (applicant_eligibility_description opp)])"

text \<open>\<open>for tag, kws in TAG_RULES: if any(kw in hay for kw in kws): tags.append(tag)\<close>\<close>

fun rules_loop :: "(string \<times> string list) list \<Rightarrow> string \<Rightarrow> string list \<Rightarrow> string list" where
  "rules_loop [] hay tgs = tgs"
| "rules_loop ((tag, kws) # rules) hay tgs =
     rules_loop rules hay (if list_ex (\<lambda>kw. py_in kw hay) kws then tgs @ [tag] else tgs)"

text \<open>The last loop: first occurrences only, in order, with the set \<open>seen\<close>.\<close>

fun dedup_loop :: "string list \<Rightarrow> string set \<Rightarrow> string list \<Rightarrow> string list" where
  "dedup_loop [] seen out = out"
| "dedup_loop (t # ts) seen out =
     (if t \<notin> seen then dedup_loop ts (insert t seen) (out @ [t]) else dedup_loop ts seen out)"

definition truthy :: "'a list option \<Rightarrow> bool" where
  "truthy x = (case x of None \<Rightarrow> False | Some v \<Rightarrow> v \<noteq> [])"

definition apply_tags :: "'a Opportunity_scheme \<Rightarrow> 'a Opportunity_scheme" where
  "apply_tags opp =
     (let hay = hay_of opp;
          tgs = rules_loop TAG_RULES hay [];
          tgs = (if truthy (close_date opp) then tgs @ [''has_deadline''] else tgs);
          tgs = (if is_cost_sharing opp = Some True then tgs @ [''cost_sharing''] else tgs)
      in opp\<lparr>tags := dedup_loop tgs {} []\<rparr>)"

section \<open>Pruning: \<open>drop_empty_fields\<close>\<close>

text \<open>
  The values a field of the record can hold, and a dictionary as the list of its items in
  insertion order (keys distinct). \<open>cleaned[k] = v\<close> is \<open>AList.update\<close>: it replaces the
  value of a key already present and appends a new key at the end.
\<close>

datatype pyval = PNone | PStr string | PBool bool | PInt int | PList "string list"

type_synonym pydict = "(string \<times> pyval) list"

fun drop_loop :: "pydict \<Rightarrow> pydict \<Rightarrow> pydict" where
  "drop_loop [] cleaned = cleaned"
| "drop_loop ((k, v) # items) cleaned =
     (if v = PNone then drop_loop items cleaned
      else if v = PStr [] then drop_loop items cleaned
      else if (case v of PList xs \<Rightarrow> length xs = 0 | _ \<Rightarrow> False) then drop_loop items cleaned
      else drop_loop items (AList.update k v cleaned))"

definition drop_empty_fields :: "pydict \<Rightarrow> pydict" where
  "drop_empty_fields data = drop_loop data []"

text \<open>\<open>dataclasses.asdict\<close> on the record: every field, in declaration order.\<close>

definition opt_str :: "string option \<Rightarrow> pyval" where
  "opt_str x = (case x of None \<Rightarrow> PNone | Some v \<Rightarrow> PStr v)"

definition opt_bool :: "bool option \<Rightarrow> pyval" where
  "opt_bool x = (case x of None \<Rightarrow> PNone | Some v \<Rightarrow> PBool v)"

definition opt_int :: "int option \<Rightarrow> pyval" where
  "opt_int x = (case x of None \<Rightarrow> PNone | Some v \<Rightarrow> PInt v)"

definition opt_list :: "string list option \<Rightarrow> pyval" where
  "opt_list x = (case x of None \<Rightarrow> PNone | Some v \<Rightarrow> PList v)"

definition asdict :: "Opportunity \<Rightarrow> pydict" where
  "asdict opp =
     [(''opportunity_id'', opt_str (opportunity_id opp)),
      (''opportunity_number'', opt_str (opportunity_number opp)),
      (''opportunity_title'', opt_str (opportunity_title opp)),
      (''opportunity_status'', opt_str (opportunity_status opp)),
      (''agency_code'', opt_str (agency_code opp)),
      (''category'', opt_str (category opp)),
      (''category_explanation'', opt_str (category_explanation opp)),
      (''post_date'', opt_str (post_date opp)),
      (''close_date'', opt_str (close_date opp)),
      (''close_date_description'', opt_str (close_date_description opp)),
      (''archive_date'', opt_str (archive_date opp)),
      (''is_cost_sharing'', opt_bool (is_cost_sharing opp)),
      (''expected_number_of_awards'', opt_int (expected_number_of_awards opp)),
      (''estimated_total_program_funding'', opt_int (estimated_total_program_funding opp)),
      (''award_floor'', opt_int (award_floor opp)),
      (''award_ceiling'', opt_int (award_ceiling opp)),
      (''additional_info_url'', opt_str (additional_info_url opp)),
      (''additional_info_url_description'', opt_str (additional_info_url_description opp)),
      (''opportunity_assistance_listings'', opt_list (opportunity_assistance_listings opp)),
      (''funding_instruments'', opt_list (funding_instruments opp)),
      (''funding_categories'', opt_list (funding_categories opp)),
      (''funding_category_description'', opt_str (funding_category_description opp)),
      (''applicant_types'', opt_list (applicant_types opp)),
      (''applicant_eligibility_description'', opt_str (applicant_eligibility_description opp)),
      (''agency_name'', opt_str (agency_name opp)),
      (''top_level_agency_name'', opt_str (top_level_agency_name opp)),
      (''agency_contact_description'', opt_str (agency_contact_description opp)),
      (''agency_email_address'', opt_str (agency_email_address opp)),
      (''agency_email_address_description'', opt_str (agency_email_address_description opp)),
      (''is_forecast'', opt_bool (is_forecast opp)),
      (''forecasted_post_date'', opt_str (forecasted_post_date opp)),
      (''forecasted_close_date'', opt_str (forecasted_close_date opp)),
      (''forecasted_close_date_description'', opt_str (forecasted_close_date_description opp)),
      (''forecasted_award_date'', opt_str (forecasted_award_date opp)),
      (''forecasted_project_start_date'', opt_str (forecasted_project_start_date opp)),
      (''fiscal_year'', opt_int (fiscal_year opp)),
      (''created_at'', opt_str (created_at opp)),
      (''updated_at'', opt_str (updated_at opp)),
      (''summary_description'', opt_str (summary_description opp)),
      (''tags'', PList (tags opp))]"

section \<open>The extractors on arguments that may be absent\<close>

text \<open>
  Python does not enforce the annotation \<open>str\<close> of a parameter, so \<open>find_label\<close> and
  \<open>extract_opportunity_id\<close> can be called with \<open>None\<close>. Two of their steps raise then:
  \<open>label.lower()\<close> in the list comprehension of \<open>find_label\<close> (\<open>None\<close> has no attribute
  \<open>lower\<close>: an \<open>AttributeError\<close>, raised at the first label of the non-empty vocabulary),
  and \<open>re.search(pattern, text)\<close> on a text that is \<open>None\<close> (a \<open>TypeError\<close>: expected
  string or bytes-like object). The functions below are the two extractors step by step
  on such arguments; on strings they are \<open>find_label\<close> and \<open>extract_opportunity_id\<close>.
\<close>

definition re_search_call :: "bool \<Rightarrow> rx \<Rightarrow> string option \<Rightarrow> py_exn + mstate option" where
  "re_search_call ic r text =
     (case text of None \<Rightarrow> Inl TypeError | Some s \<Rightarrow> Inr (re_search ic r s))"

definition find_label_call :: "string option \<Rightarrow> string option \<Rightarrow> py_exn + string option" where
  "find_label_call text label =
     (case label of
        None \<Rightarrow> Inl AttributeError
      | Some l \<Rightarrow>
          (case re_search_call True (label_pattern l) text of
             Inl e \<Rightarrow> Inl e
           | Inr None \<Rightarrow> Inr None
           | Inr (Some m) \<Rightarrow> Inr (Some (clean_text (group m 1)))))"

definition extract_opportunity_id_call :: "string option \<Rightarrow> py_exn + string option" where
  "extract_opportunity_id_call url =
     (case re_search_call False detail_pattern url of
        Inl e \<Rightarrow> Inl e
      | Inr (Some m) \<Rightarrow> Inr (group m 1)
      | Inr None \<Rightarrow>
          (case re_search_call False opportunity_pattern url of
             Inl e \<Rightarrow> Inl e
           | Inr (Some m) \<Rightarrow> Inr (group m 1)
           | Inr None \<Rightarrow> Inr None))"

section \<open>Record Assembler: the main program\<close>

definition new_opportunity :: Opportunity where
  "new_opportunity =
     \<lparr>opportunity_id = None,
       opportunity_number = None,
       opportunity_title = None,
       opportunity_status = None,
       agency_code = None,
       category = None,
       category_explanation = None,
       post_date = None,
       close_date = None,
       close_date_description = None,
       archive_date = None,
       is_cost_sharing = None,
       expected_number_of_awards = None,
       estimated_total_program_funding = None,
       award_floor = None,
       award_ceiling = None,
       additional_info_url = None,
       additional_info_url_description = None,
       opportunity_assistance_listings = None,
       funding_instruments = None,
       funding_categories = None,
       funding_category_description = None,
       applicant_types = None,
       applicant_eligibility_description = None,
       agency_name = None,
       top_level_agency_name = None,
       agency_contact_description = None,
       agency_email_address = None,
       agency_email_address_description = None,
       is_forecast = None,
       forecasted_post_date = None,
       forecasted_close_date = None,
       forecasted_close_date_description = None,
       forecasted_award_date = None,
       forecasted_project_start_date = None,
       fiscal_year = None,
       created_at = None,
       updated_at = None,
       summary_description = None,
       tags = []\<rparr>"

definition extract_title :: "soup \<Rightarrow> string" where
  "extract_title sp =
     (let t1 = (case h1_text sp of None \<Rightarrow> [] | Some h \<Rightarrow> clean_text (Some h))
      in if t1 \<noteq> [] then t1
         else
           (let t2 = (case title_text sp of None \<Rightarrow> [] | Some h \<Rightarrow> clean_text (Some h))
            in if t2 \<noteq> [] then t2 else []))"

text \<open>\<open>a or b\<close> on optional strings: \<open>a\<close> if it is present and not empty, else \<open>b\<close>.\<close>

definition py_or :: "string option \<Rightarrow> string option \<Rightarrow> string option" where
  "py_or a b = (if truthy a then a else b)"

text \<open>
  \<open>re.findall\<close> for a pattern without groups that never matches the empty string: the
  matched texts, left to right, the search resuming where the last match ended (\<open>skip\<close>
  counts the characters of the last match still to pass).
\<close>

fun findall_from :: "bool \<Rightarrow> rx \<Rightarrow> string \<Rightarrow> string \<Rightarrow> nat \<Rightarrow> string list" where
  "findall_from ic r seen [] skip = []"
| "findall_from ic r seen (c # cs) skip =
     (if 0 < skip then findall_from ic r (c # seen) cs (skip - 1)
      else
        (case rmatch ic r (seen, c # cs, []) of
           [] \<Rightarrow> findall_from ic r (c # seen) cs 0
         | (seen', ahead', gs') # _ \<Rightarrow>
             take (length (c # cs) - length ahead') (c # cs)
               # findall_from ic r (c # seen) cs (length (c # cs) - length ahead' - 1)))"

text \<open>\<open>r"\b\d{2}\.\d{3}\b"\<close>\<close>

definition listing_code_pattern :: rx where
  "listing_code_pattern =
     seqs [WordB, Rep True 2 (Some 2) is_digit, Lit CHR ''.'', Rep True 3 (Some 3) is_digit,
           WordB]"

text \<open>
  Lines 244-286 of the program, once the three dates are known: the fields set from the
  label values and the links, then \<open>apply_tags\<close>.
\<close>

definition set_cost_sharing :: "string \<Rightarrow> Opportunity \<Rightarrow> Opportunity" where
  "set_cost_sharing page_text opp =
     (let cost_sharing = find_label page_text ''Cost sharing or matching requirement''
      in if truthy cost_sharing
         then opp\<lparr>is_cost_sharing :=
                Some (startswith (py_lower (py_strip (or_empty cost_sharing))) ''y'')\<rparr>
         else opp)"

definition set_instrument :: "string \<Rightarrow> Opportunity \<Rightarrow> Opportunity" where
  "set_instrument page_text opp =
     (let instrument = find_label page_text ''Funding instrument type''
      in if truthy instrument then opp\<lparr>funding_instruments := Some [or_empty instrument]\<rparr>
         else opp)"

definition set_funding_activity :: "string \<Rightarrow> Opportunity \<Rightarrow> Opportunity" where
  "set_funding_activity page_text opp =
     (let funding_activity = find_label page_text ''Category of Funding Activity''
      in if truthy funding_activity
         then opp\<lparr>funding_categories := Some [or_empty funding_activity]\<rparr>
         else opp)"

definition set_assistance_listings :: "string \<Rightarrow> Opportunity \<Rightarrow> Opportunity" where
  "set_assistance_listings page_text opp =
     (let al = find_label page_text ''Assistance Listings''
      in if truthy al then
           (let codes = sorted_set (findall_from False listing_code_pattern [] (or_empty al) 0)
            in opp\<lparr>opportunity_assistance_listings := (if codes = [] then None else Some codes)\<rparr>)
         else opp)"

definition set_additional_info :: "soup \<Rightarrow> Opportunity \<Rightarrow> Opportunity" where
  "set_additional_info sp opp =
     (case classified_links sp of
        (external_links, documents) \<Rightarrow>
          (case documents of
             d # _ \<Rightarrow>
               opp\<lparr>additional_info_url := Some d,
                   additional_info_url_description := Some ''primary_pdf''\<rparr>
           | [] \<Rightarrow>
               (case external_links of
                  e # _ \<Rightarrow>
                    opp\<lparr>additional_info_url := Some e,
                        additional_info_url_description := Some ''external_link''\<rparr>
                | [] \<Rightarrow> opp)))"

text \<open>\<open>clean_text(" ".join(soup.stripped_strings))\<close>\<close>

definition page_text_of :: "soup \<Rightarrow> string" where
  "page_text_of sp = clean_text (Some (py_join '' '' (stripped_strings sp)))"

text \<open>
  The program from line 234 on. The two readings of the clock, already in ISO form, are
  the arguments \<open>now1\<close> and \<open>now2\<close>. An exception raised by a step ends the program.
\<close>

definition build_opportunity :: "string \<Rightarrow> soup \<Rightarrow> string \<Rightarrow> string \<Rightarrow> py_exn + Opportunity" where
  "build_opportunity url sp now1 now2 =
     (let title = extract_title sp;
          page_text = page_text_of sp;
          opp = new_opportunity
                  \<lparr>opportunity_id := extract_opportunity_id url,
                   opportunity_title := Some title,
                   created_at := Some (now1 @ ''Z''),
                   updated_at := Some (now2 @ ''Z'')\<rparr>;
          opp = opp\<lparr>agency_name := find_label page_text ''Agency''\<rparr>;
          opp = opp\<lparr>opportunity_number := find_label page_text ''Funding opportunity number''\<rparr>;
          posted_raw = find_label page_text ''Posted date'';
          close_raw = py_or (py_or (find_label page_text ''Closing'')
                                   (find_label page_text ''Close date''))
                            (find_label page_text ''Closing date'');
          archive_raw = find_label page_text ''Archive date''
      in case first_date_token posted_raw of
           Inl e \<Rightarrow> Inl e
         | Inr pd \<Rightarrow>
             (case first_date_token close_raw of
                Inl e \<Rightarrow> Inl e
              | Inr cd \<Rightarrow>
                  (case first_date_token archive_raw of
                     Inl e \<Rightarrow> Inl e
                   | Inr ad \<Rightarrow>
                       (let opp = opp\<lparr>post_date := pd, close_date := cd, archive_date := ad\<rparr>;
                            opp = set_cost_sharing page_text opp;
                            opp = set_instrument page_text opp;
                            opp = opp\<lparr>category := find_label page_text ''Opportunity Category''\<rparr>;
                            opp = opp\<lparr>category_explanation :=
                                      find_label page_text ''Opportunity Category Explanation''\<rparr>;
                            opp = set_funding_activity page_text opp;
                            opp = set_assistance_listings page_text opp;
                            opp = set_additional_info sp opp
                        in Inr (apply_tags opp)))))"

text \<open>The keyed mapping written out: \<open>drop_empty_fields(asdict(opportunity))\<close>.\<close>

definition emitted :: "Opportunity \<Rightarrow> pydict" where
  "emitted opp = drop_empty_fields (asdict opp)"

section \<open>Notions the claims are stated with\<close>

text \<open>A value that pruning removes: absent, the empty string, or the empty list.\<close>

definition is_empty_value :: "pyval \<Rightarrow> bool" where
  "is_empty_value v = (v = PNone \<or> v = PStr [] \<or> v = PList [])"

text \<open>
  A rule of the table fires on a haystack when some keyword of the rule, compared without
  regard to case, is a contiguous part of it.
\<close>

definition rule_fires :: "string \<Rightarrow> string \<times> string list \<Rightarrow> bool" where
  "rule_fires hay rule = (\<exists>kw \<in> set (snd rule). sublist (py_lower kw) hay)"

text \<open>The record of the example: only the title and the close date are populated.\<close>

definition example_opportunity :: Opportunity where
  "example_opportunity =
     new_opportunity\<lparr>opportunity_title := Some ''AI for Climate Resilience'',
                     close_date := Some ''2025-08-01''\<rparr>"

text \<open>
  The target of an anchor as the Link Classifier reads it (the \<open>href\<close> trimmed, an absent
  one empty), the PDF test, and the targets of a list of anchors that start with
  \<open>http\<close>.
\<close>

definition link_target :: "anchor \<Rightarrow> string" where
  "link_target a = py_strip (case href a of None \<Rightarrow> [] | Some x \<Rightarrow> x)"

definition is_pdf_link :: "string \<Rightarrow> bool" where
  "is_pdf_link h = (endswith (py_lower h) ''.pdf'' \<or> sublist ''.pdf?'' (py_lower h))"

definition http_targets :: "anchor list \<Rightarrow> string set" where
  "http_targets as = {h. \<exists>a \<in> set as. h = link_target a \<and> prefix ''http'' h}"

text \<open>
  An absolute URL in the usual sense (RFC 3986): it starts with a scheme, which is a
  letter followed by letters, digits, \<open>+\<close>, \<open>-\<close> or \<open>.\<close>, and a colon. A relative
  reference has no scheme.
\<close>

definition is_absolute_url :: "string \<Rightarrow> bool" where
  "is_absolute_url h =
     (let scheme = takeWhile (\<lambda>c. c \<noteq> CHR '':'') h
      in length scheme < length h \<and> scheme \<noteq> [] \<and> is_ascii_alpha (hd scheme)
         \<and> list_all (\<lambda>c. is_ascii_alpha c \<or> is_digit c \<or> c \<in> set ''+-.'') scheme)"

definition page_of_anchors :: "string list \<Rightarrow> soup" where
  "page_of_anchors hs =
     \<lparr>h1_text = None, title_text = None, stripped_strings = [],
      anchors = map (\<lambda>h. \<lparr>href = Some h\<rparr>) hs\<rparr>"


text \<open>The first format of a list, in order, that parses a string.\<close>

definition first_parse :: "string \<Rightarrow> string list \<Rightarrow> string option" where
  "first_parse s fmts = List.find (\<lambda>fmt. \<not> isl (strptime s fmt)) fmts"

text \<open>
  The cost-sharing flag as a function of the label value: absent for an absent or empty
  value, otherwise whether the value, stripped and lowercased, begins with \<open>y\<close>.
\<close>

definition cost_sharing_flag :: "string option \<Rightarrow> bool option" where
  "cost_sharing_flag v =
     (case v of
        None \<Rightarrow> None
      | Some x \<Rightarrow> if x = [] then None else Some (prefix ''y'' (py_lower (py_strip x))))"

text \<open>
  The literal text \<open>s\<close> stands at the head of \<open>ahead\<close>, compared with or without regard
  to case.
\<close>

definition lit_match :: "bool \<Rightarrow> string \<Rightarrow> string \<Rightarrow> bool" where
  "lit_match ic s ahead =
     (length s \<le> length ahead
      \<and> (if ic then py_lower (take (length s) ahead) = py_lower s
         else take (length s) ahead = s))"

text \<open>
  The leftmost position of a text at which a recognizer succeeds, and its result there.
  The recognizer sees the text before the position (reversed) and the text from it on.
\<close>

fun leftmost :: "(string \<Rightarrow> string \<Rightarrow> 'a option) \<Rightarrow> string \<Rightarrow> string \<Rightarrow> 'a option" where
  "leftmost f before [] = f before []"
| "leftmost f before (c # cs) =
     (case f before (c # cs) of Some x \<Rightarrow> Some x | None \<Rightarrow> leftmost f (c # before) cs)"

text \<open>
  An identifier behind a marker: the marker stands here and is followed by at least \<open>n\<close>
  characters of the class; the identifier is the whole run of such characters.
\<close>

definition id_after :: "string \<Rightarrow> (char \<Rightarrow> bool) \<Rightarrow> nat \<Rightarrow> string \<Rightarrow> string option" where
  "id_after mark P n s =
     (let run = takeWhile P (drop (length mark) s)
      in if prefix mark s \<and> n \<le> length run then Some run else None)"

definition is_hex :: "char \<Rightarrow> bool" where
  "is_hex c =
     (let n = (of_char c :: nat)
      in is_digit c \<or> (97 \<le> n \<and> n \<le> 102) \<or> (65 \<le> n \<and> n \<le> 70))"

text \<open>The match a backtracking matcher reports: the first of the list, if any.\<close>

definition first_match :: "'a list \<Rightarrow> 'a option" where
  "first_match ms = (case ms of [] \<Rightarrow> None | m # _ \<Rightarrow> Some m)"

text \<open>
  The Label Extractor in the words of its contract. \<open>label_at label s\<close>: the label
  stands at the head of \<open>s\<close> (case-insensitively), followed by optional whitespace and a
  colon; the result is the text behind the colon and the whitespace after it.
  \<open>stops_at ls s\<close>: one of the labels \<open>ls\<close> stands at the head of \<open>s\<close> in that way.
  \<open>cut_before Q s\<close>: the text of \<open>s\<close> up to, but not including, the first position
  from which \<open>Q\<close> holds (all of \<open>s\<close> if there is none).
  \<open>other_label_at label s\<close>: some label of the vocabulary other than \<open>label\<close> (labels
  are compared without regard to case, as everywhere in the Label Extractor) stands at the
  head of \<open>s\<close> in that way; the target label itself never ends its own value.
  \<open>label_value label s\<close>: the value of the label standing at the head of \<open>s\<close>, cut
  before the next other label of the vocabulary and whitespace-normalized.
\<close>

definition label_at :: "string \<Rightarrow> string \<Rightarrow> string option" where
  "label_at label s =
     (if lit_match True label s
      then (case dropWhile is_space (drop (length label) s) of
              [] \<Rightarrow> None
            | c # r \<Rightarrow> if c = CHR '':'' then Some (dropWhile is_space r) else None)
      else None)"

definition stops_at :: "string list \<Rightarrow> string \<Rightarrow> bool" where
  "stops_at ls s = (\<exists>l \<in> set ls. label_at l s \<noteq> None)"

fun cut_before :: "(string \<Rightarrow> bool) \<Rightarrow> string \<Rightarrow> string" where
  "cut_before Q [] = []"
| "cut_before Q (c # cs) = (if Q (c # cs) then [] else c # cut_before Q cs)"

definition other_label_at :: "string \<Rightarrow> string \<Rightarrow> bool" where
  "other_label_at label s =
     (\<exists>l \<in> set LABELS. py_lower l \<noteq> py_lower label \<and> label_at l s \<noteq> None)"

definition label_value :: "string \<Rightarrow> string \<Rightarrow> string option" where
  "label_value label s =
     map_option (\<lambda>v. clean_text (Some (cut_before (other_label_at label) v)))
       (label_at label s)"

text \<open>
  Where the lookahead of the label pattern succeeds: before optional whitespace and a stop
  label, or at the end of the text (also before a final newline).
\<close>

definition look_ok :: "string list \<Rightarrow> string \<Rightarrow> bool" where
  "look_ok ls w = (stops_at ls (dropWhile is_space w) \<or> w = [] \<or> w = [CHR 0x0A])"

text \<open>After optional whitespace the next character is a colon.\<close>

definition colon_next :: "string \<Rightarrow> bool" where
  "colon_next s = (case dropWhile is_space s of [] \<Rightarrow> False | c # r \<Rightarrow> c = CHR '':'')"

text \<open>
  Date tokens without backtracking. A token is described by its pieces: \<open>Run P lo hi\<close>
  is a whole run of characters of the class \<open>P\<close>, of a length between \<open>lo\<close> and \<open>hi\<close>
  (\<open>None\<close>: any), and \<open>Sep c\<close> is the single character \<open>c\<close>. \<open>take_pieces ps s\<close> is the
  token that stands at the head of \<open>s\<close>, if one does. \<open>date_token ps before s\<close> is that
  token when it stands between word boundaries: of the characters on the two sides of its
  start, and of its end, exactly one is a word character.
\<close>

datatype piece = Run "char \<Rightarrow> bool" nat "nat option" | Sep char

fun take_pieces :: "piece list \<Rightarrow> string \<Rightarrow> string option" where
  "take_pieces [] s = Some []"
| "take_pieces (Run P lo hi # ps) s =
     (let r = takeWhile P s
      in if lo \<le> length r \<and> (case hi of None \<Rightarrow> True | Some h \<Rightarrow> length r \<le> h)
         then map_option ((@) r) (take_pieces ps (dropWhile P s))
         else None)"
| "take_pieces (Sep c # ps) s =
     (case s of
        [] \<Rightarrow> None
      | x # xs \<Rightarrow> if x = c then map_option ((#) c) (take_pieces ps xs) else None)"

definition date_token :: "piece list \<Rightarrow> string \<Rightarrow> string \<Rightarrow> string option" where
  "date_token ps before s =
     (case take_pieces ps s of
        None \<Rightarrow> None
      | Some tok \<Rightarrow>
          if at_word before \<noteq> at_word s
             \<and> at_word (rev tok @ before) \<noteq> at_word (drop (length tok) s)
          then Some tok else None)"

text \<open>
  The three token shapes of the Date-Token Extractor: a word of ASCII letters, a space,
  one or two digits, a comma, a space and four digits; one or two digits, a slash, one or
  two digits, a slash and four digits; four digits, a hyphen, two digits, a hyphen and
  two digits.
\<close>

definition word_day_year :: "piece list" where
  "word_day_year =
     [Run is_ascii_alpha 1 None, Sep CHR '' '', Run is_digit 1 (Some 2), Sep CHR '','',
      Sep CHR '' '', Run is_digit 4 (Some 4)]"

definition slash_date :: "piece list" where
  "slash_date =
     [Run is_digit 1 (Some 2), Sep CHR ''/'', Run is_digit 1 (Some 2), Sep CHR ''/'',
      Run is_digit 4 (Some 4)]"

definition iso_date :: "piece list" where
  "iso_date =
     [Run is_digit 4 (Some 4), Sep CHR ''-'', Run is_digit 2 (Some 2), Sep CHR ''-'',
      Run is_digit 2 (Some 2)]"

text \<open>The pattern of a piece, and when a list of pieces needs no backtracking.\<close>

fun rx_of_piece :: "piece \<Rightarrow> rx" where
  "rx_of_piece (Run P lo hi) = Rep True lo hi P"
| "rx_of_piece (Sep c) = Lit c"

fun separated :: "piece list \<Rightarrow> bool" where
  "separated [] = True"
| "separated [Run P lo hi] = (1 \<le> lo \<and> (\<forall>c. P c \<longrightarrow> is_word c))"
| "separated (Run P lo hi # Sep c # ps) = (\<not> P c \<and> separated (Sep c # ps))"
| "separated (Run P lo hi # Run Q lo' hi' # ps) = False"
| "separated (Sep c # ps) = separated ps"

text \<open>A page whose only text is the cost-sharing label with the value \<open>Yes\<close>.\<close>

definition cost_sharing_page :: soup where
  "cost_sharing_page =
     \<lparr>h1_text = None, title_text = None,
      stripped_strings = [''Cost sharing or matching requirement:'', ''Yes''],
      anchors = []\<rparr>"

section \<open>Strings: prefixes and contiguous parts\<close>

lemma startswith_prefix: "startswith s p \<longleftrightarrow> prefix p s"
  unfolding startswith_def prefix_def
  by (metis append_eq_conv_conj append_take_drop_id)

lemma py_in_sublist: "py_in needle hay \<longleftrightarrow> sublist needle hay"
  by (induction hay) (auto simp: sublist_Cons_right startswith_prefix)

lemma lit_match_Nil: "lit_match ic [] ahead"
  by (simp add: lit_match_def py_lower_def)

lemma lit_match_Cons:
  "lit_match ic (c # s) ahead \<longleftrightarrow>
     (case ahead of [] \<Rightarrow> False
      | x # xs \<Rightarrow> (if ic then lower_char x = lower_char c else x = c) \<and> lit_match ic s xs)"
  by (cases ahead) (auto simp: lit_match_def py_lower_def)

text \<open>For evaluation: compare character by character and stop at the first mismatch.\<close>

lemma lit_match_code [code]:
  "lit_match ic [] ahead = True"
  "lit_match ic (c # s) ahead =
     (case ahead of
        [] \<Rightarrow> False
      | x # xs \<Rightarrow>
          if (if ic then lower_char x = lower_char c else x = c) then lit_match ic s xs
          else False)"
  by (auto simp: lit_match_Nil lit_match_Cons split: list.splits)

section \<open>Character tests on the bits of a character\<close>

text \<open>
  The character tests are defined on the code point. For evaluation the same tests are
  given on the eight bits of the character (least significant first); each equation is
  checked on all 256 characters.
\<close>

lemma lower_char_bits [code]:
  "lower_char (Char b0 b1 b2 b3 b4 b5 b6 b7) =
     (if b6 \<and> \<not> b5 \<and>
         (if b7 then \<not> (b4 \<and> b3 \<and> b2 \<and> b1 \<and> b0) \<and> \<not> (b4 \<and> \<not> b3 \<and> b2 \<and> b1 \<and> b0)
          else (b0 \<or> b1 \<or> b2 \<or> b3 \<or> b4) \<and> \<not> (b4 \<and> b3 \<and> (b2 \<or> (b1 \<and> b0))))
      then Char b0 b1 b2 b3 b4 True b6 b7
      else Char b0 b1 b2 b3 b4 b5 b6 b7)"
  by (cases b0; cases b1; cases b2; cases b3; cases b4; cases b5; cases b6; cases b7)
     (simp_all add: lower_char_def char_of_eq_iff)

lemma is_space_bits [code]:
  "is_space (Char b0 b1 b2 b3 b4 b5 b6 b7) =
     (if b7 then \<not> b6 \<and> \<not> b4 \<and> \<not> b3 \<and> \<not> b1 \<and> (if b5 then \<not> b2 \<and> \<not> b0 else b2 \<and> b0)
      else \<not> b6 \<and>
        (if b5 then \<not> b4 \<and> \<not> b3 \<and> \<not> b2 \<and> \<not> b1 \<and> \<not> b0
         else if b4 then b3 \<and> b2
         else b3 \<and> (if b2 then \<not> b1 else b1 \<or> b0)))"
  by (cases b0; cases b1; cases b2; cases b3; cases b4; cases b5; cases b6; cases b7)
     (simp_all add: is_space_def)

lemma is_digit_bits [code]:
  "is_digit (Char b0 b1 b2 b3 b4 b5 b6 b7) =
     (\<not> b7 \<and> \<not> b6 \<and> b5 \<and> b4 \<and> (\<not> b3 \<or> (\<not> b2 \<and> \<not> b1)))"
  by (cases b0; cases b1; cases b2; cases b3; cases b4; cases b5; cases b6; cases b7)
     (simp_all add: is_digit_def)

lemma is_ascii_alpha_bits [code]:
  "is_ascii_alpha (Char b0 b1 b2 b3 b4 b5 b6 b7) =
     (\<not> b7 \<and> b6 \<and> (b0 \<or> b1 \<or> b2 \<or> b3 \<or> b4) \<and> \<not> (b4 \<and> b3 \<and> (b2 \<or> (b1 \<and> b0))))"
  by (cases b0; cases b1; cases b2; cases b3; cases b4; cases b5; cases b6; cases b7)
     (simp_all add: is_ascii_alpha_def)

lemma is_word_bits [code]:
  "is_word (Char b0 b1 b2 b3 b4 b5 b6 b7) =
     (if b7 then
        (if b6 then \<not> (b4 \<and> \<not> b3 \<and> b2 \<and> b1 \<and> b0)
         else b5 \<and>
           (if b4 then
              (if b3 then (if b2 then \<not> (b1 \<and> b0) else b1 \<noteq> b0)
               else (if b2 then \<not> b1 \<and> b0 else b1))
            else b3 \<and> \<not> b2 \<and> b1 \<and> \<not> b0))
      else if b6 then
        ((b0 \<or> b1 \<or> b2 \<or> b3 \<or> b4) \<and> \<not> (b4 \<and> b3 \<and> (b2 \<or> (b1 \<and> b0))))
        \<or> (\<not> b5 \<and> b4 \<and> b3 \<and> b2 \<and> b1 \<and> b0)
      else b5 \<and> b4 \<and> (\<not> b3 \<or> (\<not> b2 \<and> \<not> b1)))"
  by (cases b0; cases b1; cases b2; cases b3; cases b4; cases b5; cases b6; cases b7)
     (simp_all add: is_word_def is_digit_def is_ascii_alpha_def)

lemma is_hex_or_dash_bits [code]:
  "is_hex_or_dash (Char b0 b1 b2 b3 b4 b5 b6 b7) =
     (\<not> b7 \<and>
      (if b6 then \<not> b4 \<and> \<not> b3 \<and> (b0 \<or> b1 \<or> b2) \<and> \<not> (b0 \<and> b1 \<and> b2)
       else b5 \<and> (if b4 then \<not> b3 \<or> (\<not> b2 \<and> \<not> b1) else b3 \<and> b2 \<and> \<not> b1 \<and> b0)))"
  by (cases b0; cases b1; cases b2; cases b3; cases b4; cases b5; cases b6; cases b7)
     (simp_all add: is_hex_or_dash_def is_digit_def)

lemma is_hex_bits [code]:
  "is_hex (Char b0 b1 b2 b3 b4 b5 b6 b7) =
     (\<not> b7 \<and>
      (if b6 then \<not> b4 \<and> \<not> b3 \<and> (b0 \<or> b1 \<or> b2) \<and> \<not> (b0 \<and> b1 \<and> b2)
       else b5 \<and> b4 \<and> (\<not> b3 \<or> (\<not> b2 \<and> \<not> b1))))"
  by (cases b0; cases b1; cases b2; cases b3; cases b4; cases b5; cases b6; cases b7)
     (simp_all add: is_hex_def is_digit_def)

section \<open>Characters\<close>

lemma of_char_lower:
  "(of_char (lower_char c) :: nat) =
     (let n = of_char c
      in if (65 \<le> n \<and> n \<le> 90) \<or> (192 \<le> n \<and> n \<le> 222 \<and> n \<noteq> 215) then n + 32 else n)"
  by (auto simp: lower_char_def Let_def)

lemma is_space_lower: "is_space (lower_char c) = is_space c"
  unfolding is_space_def of_char_lower by (auto simp: Let_def)

lemma lower_eq_space: "lower_char x = lower_char c \<Longrightarrow> is_space x \<Longrightarrow> is_space c"
  using is_space_lower by metis

lemma of_char_colon: "(of_char CHR '':'' :: nat) = 58"
  by simp

lemma lower_colon: "lower_char x = lower_char CHR '':'' \<longleftrightarrow> x = CHR '':''"
proof
  assume "lower_char x = lower_char CHR '':''"
  then have "(of_char (lower_char x) :: nat) = of_char (lower_char CHR '':'')" by simp
  then have "(of_char x :: nat) = 58"
    unfolding of_char_lower of_char_colon by (simp add: Let_def split: if_splits)
  then have "(of_char x :: nat) = of_char CHR '':''" by simp
  then show "x = CHR '':''" by (simp only: of_char_eq_iff)
qed simp

lemma not_space_colon: "\<not> is_space CHR '':''"
  by (simp add: is_space_def)

section \<open>The matcher on the pieces of a pattern\<close>

lemma rmatch_seqs_Nil: "rmatch ic (seqs []) st = [st]"
  by (simp add: seqs_def)

lemma rmatch_seqs_Cons:
  "rmatch ic (seqs (r # rs)) st = concat (map (rmatch ic (seqs rs)) (rmatch ic r st))"
  by (simp add: seqs_def)

lemma rmatch_lits:
  "rmatch ic (lits s) (seen, ahead, gs) =
     (if lit_match ic s ahead
      then [(rev (take (length s) ahead) @ seen, drop (length s) ahead, gs)] else [])"
proof (induction s arbitrary: seen ahead)
  case Nil
  then show ?case by (simp add: lits_def lit_match_Nil)
next
  case (Cons c s)
  note IH = Cons.IH
  have l: "lits (c # s) = Seq (Lit c) (lits s)" by (simp add: lits_def)
  show ?case
  proof (cases ahead)
    case Nil
    then show ?thesis by (simp add: l lit_match_Cons)
  next
    case (Cons x xs)
    then show ?thesis
      using IH [of "x # seen" xs] by (cases ic) (auto simp: l lit_match_Cons)
  qed
qed

text \<open>A repetition whose continuation fails wherever the class still holds.\<close>

lemma concat_map_only:
  assumes "\<And>k. k \<in> set ks \<Longrightarrow> k \<noteq> n \<Longrightarrow> F k = []" and "distinct ks"
  shows "concat (map F ks) = (if n \<in> set ks then F n else [])"
  using assms by (induction ks) auto

lemma drop_takeWhile_length: "drop (length (takeWhile P xs)) xs = dropWhile P xs"
  by (induction xs) auto

lemma rep_then_from:
  assumes "\<And>k. lo \<le> k \<Longrightarrow> k < length (takeWhile P ahead) \<Longrightarrow>
             F (rev (take k ahead) @ seen, drop k ahead, gs) = []"
  shows "concat (map F (rmatch ic (Rep g lo hi P) (seen, ahead, gs))) =
     (if lo \<le> length (takeWhile P ahead)
         \<and> (case hi of None \<Rightarrow> True | Some h \<Rightarrow> length (takeWhile P ahead) \<le> h)
      then F (rev (takeWhile P ahead) @ seen, dropWhile P ahead, gs) else [])"
proof -
  let ?n = "length (takeWhile P ahead)"
  let ?S = "\<lambda>k. (rev (take k ahead) @ seen, drop k ahead, gs)"
  let ?ks = "rep_lens g lo hi P ahead"
  have d: "distinct ?ks"
    unfolding rep_lens_def Let_def by (cases g) (simp_all only: distinct_rev distinct_upt if_True if_False)
  have s: "set ?ks = {lo ..< Suc (max_run P hi ahead)}"
    unfolding rep_lens_def Let_def by (cases g) (simp_all only: set_rev set_upt if_True if_False)
  have le: "max_run P hi ahead \<le> ?n" by (simp add: max_run_def Let_def split: option.splits)
  have z: "\<And>k. k \<in> set ?ks \<Longrightarrow> k \<noteq> ?n \<Longrightarrow> (F \<circ> ?S) k = []"
    using assms le unfolding s by auto
  have m: "?n \<in> set ?ks \<longleftrightarrow>
      lo \<le> ?n \<and> (case hi of None \<Rightarrow> True | Some h \<Rightarrow> ?n \<le> h)"
    unfolding s by (auto simp: max_run_def Let_def split: option.splits)
  have t: "take ?n ahead = takeWhile P ahead"
    by (metis append_eq_conv_conj takeWhile_dropWhile_id)
  have "concat (map F (rmatch ic (Rep g lo hi P) (seen, ahead, gs))) = concat (map (F \<circ> ?S) ?ks)"
    by simp
  also have "\<dots> = (if ?n \<in> set ?ks then (F \<circ> ?S) ?n else [])"
    using z d by (rule concat_map_only)
  finally show ?thesis
    unfolding m by (simp add: t drop_takeWhile_length)
qed

lemma rep_then:
  assumes "\<And>k. k < length (takeWhile P ahead) \<Longrightarrow>
             F (rev (take k ahead) @ seen, drop k ahead, gs) = []"
  shows "concat (map F (rmatch ic (Rep g lo hi P) (seen, ahead, gs))) =
     (if lo \<le> length (takeWhile P ahead)
         \<and> (case hi of None \<Rightarrow> True | Some h \<Rightarrow> length (takeWhile P ahead) \<le> h)
      then F (rev (takeWhile P ahead) @ seen, dropWhile P ahead, gs) else [])"
  by (rule rep_then_from) (rule assms)

lemma rmatch_Lit_class_fail:
  assumes "k < length (takeWhile P ahead)" and "\<And>x. P x \<Longrightarrow> \<not> (if ic then lower_char x = lower_char c else x = c)"
  shows "rmatch ic (Lit c) (sn, drop k ahead, gs) = []"
proof -
  from assms(1) have k: "k < length ahead"
    using length_takeWhile_le [of P ahead] by simp
  from assms(1) have "P (takeWhile P ahead ! k)" using nth_mem set_takeWhileD by metis
  then have p: "P (ahead ! k)" using assms(1) by (simp add: takeWhile_nth)
  from k have "drop k ahead = ahead ! k # drop (Suc k) ahead" by (simp add: Cons_nth_drop_Suc)
  with p assms(2) show ?thesis by simp
qed

section \<open>Searching\<close>

lemma first_match_simps [simp]:
  "first_match [] = None" "first_match (m # ms) = Some m"
  by (simp_all add: first_match_def)

lemma re_search_from_first:
  "re_search_from ic r seen s =
     (case first_match (rmatch ic r (seen, s, [])) of
        Some m \<Rightarrow> Some m
      | None \<Rightarrow> (case s of [] \<Rightarrow> None | c # cs \<Rightarrow> re_search_from ic r (c # seen) cs))"
  by (cases s) (simp_all add: first_match_def split: list.splits)

lemma re_search_from_leftmost:
  assumes "\<And>seen ahead. suffix ahead s \<Longrightarrow>
     map_option g (first_match (rmatch ic r (seen, ahead, []))) = f seen ahead"
  shows "map_option g (re_search_from ic r seen s) = leftmost f seen s"
  using assms
proof (induction s arbitrary: seen)
  case Nil
  from Nil [of "[]" seen] show ?case
    by (subst re_search_from_first) (auto split: option.splits)
next
  case (Cons c cs)
  have "\<And>seen ahead. suffix ahead cs \<Longrightarrow>
     map_option g (first_match (rmatch ic r (seen, ahead, []))) = f seen ahead"
    using Cons.prems by (simp add: suffix_ConsI)
  from Cons.IH [OF this] Cons.prems [of "c # cs" seen] show ?case
    by (subst re_search_from_first) (auto split: option.splits)
qed

lemma leftmost_map_option:
  "leftmost (\<lambda>b a. map_option h (f b a)) before s = map_option h (leftmost f before s)"
  by (induction s arbitrary: before) (auto split: option.splits)

lemma leftmost_cong:
  assumes "\<And>before ahead. suffix ahead s \<Longrightarrow> f before ahead = f' before ahead"
  shows "leftmost f before s = leftmost f' before s"
  using assms
proof (induction s arbitrary: before)
  case Nil
  then show ?case by simp
next
  case (Cons c cs)
  have "\<And>before ahead. suffix ahead cs \<Longrightarrow> f before ahead = f' before ahead"
    using Cons.prems by (simp add: suffix_ConsI)
  from Cons.IH [OF this] Cons.prems [of "c # cs" before] show ?case
    by (simp cong: option.case_cong)
qed

lemma rmatch_Eps_fun: "rmatch ic Eps = (\<lambda>st. [st])"
  by (rule ext) simp

lemma rmatch_seqs_Nil_fun: "rmatch ic (seqs []) = (\<lambda>st. [st])"
  by (rule ext) (simp add: seqs_def)

lemma rmatch_seqs_single: "rmatch ic (seqs [r]) st = rmatch ic r st"
  by (simp add: seqs_def rmatch_Eps_fun)

lemma lit_match_prefix: "lit_match False s ahead \<longleftrightarrow> prefix s ahead"
  unfolding lit_match_def prefix_def
  by (metis append_eq_conv_conj append_take_drop_id length_append le_add1 if_False)

section \<open>The identifier patterns\<close>

lemma take_run: "take (length (takeWhile P a)) a = takeWhile P a"
  by (metis append_eq_conv_conj takeWhile_dropWhile_id)

lemma rep_lens_greedy:
  "rep_lens True lo None P a =
     (if lo \<le> length (takeWhile P a)
      then length (takeWhile P a) # rev [lo ..< length (takeWhile P a)] else [])"
  by (simp add: rep_lens_def max_run_def Let_def)

lemma first_match_grp_greedy:
  "first_match (rmatch ic (Grp i (Rep True lo None P)) (seen, a, gs)) =
     (if lo \<le> length (takeWhile P a)
      then Some (rev (takeWhile P a) @ seen, dropWhile P a, (i, takeWhile P a) # gs)
      else None)"
proof -
  have "length a - length (dropWhile P a) = length (takeWhile P a)"
    by (metis add_diff_cancel_right' length_append takeWhile_dropWhile_id)
  then show ?thesis
    by (simp add: rep_lens_greedy take_run drop_takeWhile_length)
qed

lemma rmatch_marker_run:
  "map_option (\<lambda>m. group m i)
     (first_match (rmatch False (seqs [lits mark, Grp i (Rep True n None P)]) (seen, ahead, [])))
   = map_option Some (id_after mark P n ahead)"
  by (simp add: rmatch_seqs_Cons rmatch_seqs_Nil_fun rmatch_lits lit_match_prefix
      first_match_grp_greedy id_after_def Let_def group_def
      del: rmatch.simps)

lemma search_marker_run:
  "map_option (\<lambda>m. group m i)
     (re_search False (seqs [lits mark, Grp i (Rep True n None P)]) url)
   = map_option Some (leftmost (\<lambda>_. id_after mark P n) [] url)"
proof -
  have "map_option (\<lambda>m. group m i)
          (re_search_from False (seqs [lits mark, Grp i (Rep True n None P)]) [] url)
        = leftmost (\<lambda>b a. map_option Some (id_after mark P n a)) [] url"
    by (rule re_search_from_leftmost) (rule rmatch_marker_run)
  then show ?thesis
    unfolding leftmost_map_option re_search_def .
qed

lemma option_bridge:
  "map_option g x = map_option Some y \<Longrightarrow>
   (case x of Some m \<Rightarrow> g m | None \<Rightarrow> z) = (case y of Some v \<Rightarrow> Some v | None \<Rightarrow> z)"
  by (cases x; cases y) auto

section \<open>Continuations\<close>

lemma concat_map_concat:
  "concat (map K (concat (map G xs))) = concat (map (\<lambda>x. concat (map K (G x))) xs)"
  by (induction xs) auto

lemma cont_seqs_Nil: "concat (map K (rmatch ic (seqs []) st)) = K st"
  by (simp add: seqs_def)

lemma cont_seqs_Cons:
  "concat (map K (rmatch ic (seqs (r # rs)) st))
     = concat (map (\<lambda>st'. concat (map K (rmatch ic (seqs rs) st'))) (rmatch ic r st))"
  by (simp only: rmatch_seqs_Cons concat_map_concat)

lemma cont_Lit:
  "concat (map K (rmatch False (Lit c) (sn, a, gs)))
     = (case a of [] \<Rightarrow> [] | x # xs \<Rightarrow> if x = c then K (c # sn, xs, gs) else [])"
  by (cases a) auto

lemma cont_WordB:
  "concat (map K (rmatch ic WordB (sn, a, gs)))
     = (if at_word sn \<noteq> at_word a then K (sn, a, gs) else [])"
  by simp

lemma cont_Grp:
  "concat (map K (rmatch ic (Grp n r) (sn, a, gs)))
     = concat (map (\<lambda>(sn', a', gs'). K (sn', a', (n, take (length a - length a') a) # gs'))
                (rmatch ic r (sn, a, gs)))"
  by (simp add: comp_def case_prod_unfold)

lemma first_match_cont: "first_match (rmatch ic r st) = first_match (concat (map (\<lambda>s. [s]) (rmatch ic r st)))"
  by simp

section \<open>Pieces\<close>

lemma take_pieces_prefix: "take_pieces ps s = Some tok \<Longrightarrow> take (length tok) s = tok"
proof (induction ps s arbitrary: tok rule: take_pieces.induct)
  case (1 s)
  then show ?case by simp
next
  case (2 P lo hi ps s)
  from 2(2) obtain t where t: "take_pieces ps (dropWhile P s) = Some t" "tok = takeWhile P s @ t"
    by (auto simp: Let_def split: if_splits)
  have "take (length t) (dropWhile P s) = t"
    using 2(1) [OF refl _ t(1)] 2(2) by (auto simp: Let_def split: if_splits)
  then have "take (length (takeWhile P s) + length t) (takeWhile P s @ dropWhile P s)
             = takeWhile P s @ t"
    by (simp del: takeWhile_dropWhile_id)
  then show ?case by (simp add: t(2))
next
  case (3 c ps s)
  then show ?case by (cases s) (auto split: if_splits)
qed

lemma run_state_heads:
  assumes "1 \<le> k" "k < length (takeWhile P a)"
  shows "\<exists>x xs y ys. rev (take k a) @ sn = x # xs \<and> P x \<and> drop k a = y # ys \<and> P y"
proof -
  have kl: "k < length a" using assms(2) length_takeWhile_le [of P a] by simp
  have p: "\<And>j. j < length (takeWhile P a) \<Longrightarrow> P (a ! j)"
    by (metis nth_mem set_takeWhileD takeWhile_nth)
  from assms obtain j where j: "k = Suc j" by (cases k) auto
  have "take k a = take j a @ [a ! j]" using kl j by (simp add: take_Suc_conv_app_nth)
  then have "rev (take k a) @ sn = a ! j # rev (take j a) @ sn" by simp
  moreover have "P (a ! j)" using p [of j] assms(2) j by simp
  moreover have "drop k a = a ! k # drop (Suc k) a" using kl by (simp add: Cons_nth_drop_Suc)
  moreover have "P (a ! k)" using p [OF assms(2)] .
  ultimately show ?thesis by blast
qed

lemma drop_run_plus: "drop (length (takeWhile P a) + n) a = drop n (dropWhile P a)"
  by (simp add: drop_takeWhile_length [symmetric] add.commute)

lemma pieces_cont:
  assumes "separated ps"
    and "\<And>x xs y ys gs. is_word x \<Longrightarrow> is_word y \<Longrightarrow> K (x # xs, y # ys, gs) = []"
  shows "concat (map K (rmatch False (seqs (map rx_of_piece ps)) (sn, a, gs)))
       = (case take_pieces ps a of
            None \<Rightarrow> []
          | Some tok \<Rightarrow> K (rev tok @ sn, drop (length tok) a, gs))"
  using assms(1)
proof (induction ps arbitrary: sn a rule: separated.induct)
  case 1
  show ?case by (simp add: cont_seqs_Nil)
next
  case (2 P lo hi)
  let ?F = "\<lambda>st'. concat (map K (rmatch False (seqs []) st'))"
  have w: "\<And>c. P c \<Longrightarrow> is_word c" and lo: "1 \<le> lo" using 2 by auto
  have z: "\<And>k. lo \<le> k \<Longrightarrow> k < length (takeWhile P a) \<Longrightarrow>
             ?F (rev (take k a) @ sn, drop k a, gs) = []"
  proof -
    fix k assume k: "lo \<le> k" "k < length (takeWhile P a)"
    with lo have "1 \<le> k" by simp
    from run_state_heads [OF this k(2), of sn] obtain x xs y ys where
      "rev (take k a) @ sn = x # xs" "P x" "drop k a = y # ys" "P y" by blast
    then show "?F (rev (take k a) @ sn, drop k a, gs) = []"
      using assms(2) w by (simp add: cont_seqs_Nil)
  qed
  have "concat (map K (rmatch False (seqs (map rx_of_piece [Run P lo hi])) (sn, a, gs)))
        = concat (map ?F (rmatch False (Rep True lo hi P) (sn, a, gs)))"
    by (simp only: list.map rx_of_piece.simps cont_seqs_Cons)
  also note rep_then_from [of lo P a ?F sn gs False True hi, OF z]
  finally show ?case
    by (simp add: cont_seqs_Nil Let_def drop_takeWhile_length)
next
  case (3 P lo hi c ps)
  let ?F = "\<lambda>st'. concat (map K (rmatch False (seqs (map rx_of_piece (Sep c # ps))) st'))"
  have nc: "\<not> P c" and sep: "separated (Sep c # ps)" using 3(2) by auto
  note IH = 3(1) [OF sep]
  have z: "\<And>k. lo \<le> k \<Longrightarrow> k < length (takeWhile P a) \<Longrightarrow>
             ?F (rev (take k a) @ sn, drop k a, gs) = []"
  proof -
    fix k assume k: "k < length (takeWhile P a)"
    then have kl: "k < length a" using length_takeWhile_le [of P a] by simp
    have "P (a ! k)" using k by (metis nth_mem set_takeWhileD takeWhile_nth)
    moreover have "drop k a = a ! k # drop (Suc k) a" using kl by (simp add: Cons_nth_drop_Suc)
    ultimately have "take_pieces (Sep c # ps) (drop k a) = None" using nc by auto
    then show "?F (rev (take k a) @ sn, drop k a, gs) = []" by (simp only: IH option.case)
  qed
  have "concat (map K (rmatch False (seqs (map rx_of_piece (Run P lo hi # Sep c # ps))) (sn, a, gs)))
        = concat (map ?F (rmatch False (Rep True lo hi P) (sn, a, gs)))"
    by (simp only: list.map rx_of_piece.simps cont_seqs_Cons)
  also note rep_then_from [of lo P a ?F sn gs False True hi, OF z]
  finally have e: "concat (map K (rmatch False
            (seqs (map rx_of_piece (Run P lo hi # Sep c # ps))) (sn, a, gs)))
        = (if lo \<le> length (takeWhile P a)
              \<and> (case hi of None \<Rightarrow> True | Some h \<Rightarrow> length (takeWhile P a) \<le> h)
           then ?F (rev (takeWhile P a) @ sn, dropWhile P a, gs) else [])" .
  have f: "?F (rev (takeWhile P a) @ sn, dropWhile P a, gs)
        = (case take_pieces (Sep c # ps) (dropWhile P a) of
             None \<Rightarrow> []
           | Some tok \<Rightarrow> K (rev tok @ rev (takeWhile P a) @ sn,
                            drop (length tok) (dropWhile P a), gs))"
    by (simp only: IH)
  show ?case
    unfolding e f
    by (cases "take_pieces (Sep c # ps) (dropWhile P a)")
       (simp_all add: Let_def drop_run_plus del: take_pieces.simps(3))
next
  case (4 P lo hi Q lo' hi' ps)
  then show ?case by simp
next
  case (5 c ps)
  note IH = 5(1) [of "c # sn"]
  have "concat (map K (rmatch False (seqs (map rx_of_piece (Sep c # ps))) (sn, a, gs)))
        = concat (map (\<lambda>st'. concat (map K (rmatch False (seqs (map rx_of_piece ps)) st')))
            (rmatch False (Lit c) (sn, a, gs)))"
    by (simp only: list.map rx_of_piece.simps cont_seqs_Cons)
  also have "\<dots> = (case a of [] \<Rightarrow> []
        | x # xs \<Rightarrow> if x = c
            then concat (map K (rmatch False (seqs (map rx_of_piece ps)) (c # sn, xs, gs)))
            else [])"
    by (rule cont_Lit)
  finally show ?case using 5(2) IH
    by (cases a) (auto split: option.splits)
qed

lemma token_pattern_first:
  assumes "separated ps"
  shows "map_option (\<lambda>m. group m i)
           (first_match (rmatch False (seqs [WordB, Grp i (seqs (map rx_of_piece ps)), WordB])
              (sn, a, [])))
         = map_option Some (date_token ps sn a)"
proof -
  let ?K0 = "\<lambda>s :: mstate. [s]"
  let ?K1 = "\<lambda>st'. concat (map ?K0 (rmatch False (seqs [WordB]) st'))"
  let ?K2 = "\<lambda>(sn', a', gs'). ?K1 (sn', a', (i, take (length a - length a') a) # gs')"
  have k2: "\<And>x xs y ys gs. is_word x \<Longrightarrow> is_word y \<Longrightarrow> ?K2 (x # xs, y # ys, gs) = []"
    by (simp add: rmatch_seqs_single at_word_def)
  have "rmatch False (seqs [WordB, Grp i (seqs (map rx_of_piece ps)), WordB]) (sn, a, [])
        = concat (map ?K0 (rmatch False (seqs [WordB, Grp i (seqs (map rx_of_piece ps)), WordB])
            (sn, a, [])))"
    by simp
  also have "\<dots> = (if at_word sn \<noteq> at_word a
        then concat (map ?K2 (rmatch False (seqs (map rx_of_piece ps)) (sn, a, []))) else [])"
    by (simp only: cont_seqs_Cons [of _ _ WordB] cont_WordB cont_seqs_Cons [of _ _ "Grp _ _"]
        cont_Grp)
  also have "concat (map ?K2 (rmatch False (seqs (map rx_of_piece ps)) (sn, a, [])))
        = (case take_pieces ps a of
            None \<Rightarrow> []
          | Some tok \<Rightarrow> ?K2 (rev tok @ sn, drop (length tok) a, []))"
    using assms k2 by (rule pieces_cont)
  finally have e: "rmatch False (seqs [WordB, Grp i (seqs (map rx_of_piece ps)), WordB]) (sn, a, [])
        = (if at_word sn \<noteq> at_word a
           then (case take_pieces ps a of
                  None \<Rightarrow> []
                | Some tok \<Rightarrow> ?K2 (rev tok @ sn, drop (length tok) a, []))
           else [])" .
  show ?thesis
  proof (cases "take_pieces ps a")
    case None
    then show ?thesis unfolding e by (simp add: date_token_def)
  next
    case (Some tok)
    from take_pieces_prefix [OF Some] have t: "take (length tok) a = tok" .
    have "length (take (length tok) a) \<le> length a" by simp
    then have l: "length tok \<le> length a" unfolding t .
    have g: "take (length a - length (drop (length tok) a)) a = tok"
      using t l by simp
    have g': "take (length a - (length a - length tok)) a = tok"
      using t l by simp
    show ?thesis unfolding e using Some
      by (simp add: date_token_def rmatch_seqs_single g g' group_def)
  qed
qed

section \<open>Whitespace at the end does not survive clean_text\<close>

lemma space_is_space: "is_space CHR '' ''"
  by (simp add: is_space_def)

lemma dropWhile_spaces: "list_all is_space ws \<Longrightarrow> dropWhile is_space ws = []"
  by (induction ws) auto

lemma sub_ws_spaces: "list_all is_space ws \<Longrightarrow> sub_ws ws = (if ws = [] then [] else '' '')"
  by (cases ws) (auto simp: dropWhile_spaces)

lemma dropWhile_append_spaces:
  "list_all is_space ws \<Longrightarrow>
   dropWhile is_space (cs @ ws) = (if list_all is_space cs then [] else dropWhile is_space cs @ ws)"
  by (induction cs) (auto simp: list_all_iff dropWhile_eq_Nil_conv)

lemma sub_ws_append_spaces:
  "list_all is_space ws \<Longrightarrow> \<exists>t. list_all is_space t \<and> sub_ws (x @ ws) = sub_ws x @ t"
proof (induction x rule: sub_ws.induct)
  case 1
  then show ?case by (auto simp: sub_ws_spaces space_is_space)
next
  case (2 c cs)
  show ?case
  proof (cases "is_space c")
    case False
    with 2 show ?thesis by auto
  next
    case True
    show ?thesis
    proof (cases "list_all is_space cs")
      case all: True
      then have a: "dropWhile is_space cs = []" by (rule dropWhile_spaces)
      from all 2(3) have "list_all is_space (cs @ ws)" by simp
      then have b: "dropWhile is_space (cs @ ws) = []" by (rule dropWhile_spaces)
      have 1: "sub_ws (c # (cs @ ws)) = CHR '' '' # sub_ws (dropWhile is_space (cs @ ws))"
        using True by (simp only: sub_ws.simps if_True)
      have 2: "sub_ws (c # cs) = CHR '' '' # sub_ws (dropWhile is_space cs)"
        using True by (simp only: sub_ws.simps if_True)
      have "sub_ws ((c # cs) @ ws) = sub_ws (c # cs) @ []"
        unfolding append_Cons 1 2 a b by simp
      then show ?thesis by (intro exI [of _ "[]"]) simp
    next
      case False
      with True 2(1) [OF True 2(3)] 2(3) show ?thesis
        by (auto simp: dropWhile_append_spaces)
    qed
  qed
qed

lemma py_strip_append_spaces: "list_all is_space t \<Longrightarrow> py_strip (y @ t) = py_strip y"
proof (cases "list_all is_space y")
  case True
  assume "list_all is_space t"
  with True show ?thesis
    by (simp add: py_strip_def dropWhile_append_spaces dropWhile_spaces)
next
  case False
  assume t: "list_all is_space t"
  then have "dropWhile is_space (rev t @ rev (dropWhile is_space y))
           = dropWhile is_space (rev (dropWhile is_space y))"
    by (simp add: dropWhile_append list_all_iff)
  with False t show ?thesis
    by (simp add: py_strip_def dropWhile_append_spaces)
qed

lemma clean_text_append_spaces:
  assumes "list_all is_space ws"
  shows "clean_text (Some (x @ ws)) = clean_text (Some x)"
proof -
  from sub_ws_append_spaces [OF assms, of x] obtain t
    where "list_all is_space t" "sub_ws (x @ ws) = sub_ws x @ t" by blast
  then show ?thesis by (simp add: clean_text_def py_strip_append_spaces)
qed

lemma sub_ws_chars: "c \<in> set (sub_ws s) \<Longrightarrow> \<not> is_space c \<or> c = CHR '' ''"
  by (induction s rule: sub_ws.induct) (auto split: if_splits)

lemma clean_text_no_newline: "CHR 0x0A \<notin> set (clean_text s)"
proof
  assume "CHR 0x0A \<in> set (clean_text s)"
  then have "CHR 0x0A \<in> set (sub_ws (case s of None \<Rightarrow> [] | Some x \<Rightarrow> x))"
    unfolding clean_text_def py_strip_def
    by (meson set_dropWhileD set_rev[THEN equalityD1, THEN subsetD] in_set_dropD  set_rev)
  from sub_ws_chars [OF this] show False by (simp add: is_space_def)
qed

section \<open>The label pattern\<close>

lemma labels_start:
  "list_all (\<lambda>l. l \<noteq> [] \<and> \<not> is_space (hd l)) LABELS"
  by code_simp

lemma other_labels_start:
  "l \<in> set (other_labels label) \<Longrightarrow> l \<noteq> [] \<and> \<not> is_space (hd l)"
  using labels_start by (auto simp: other_labels_def list_all_iff)

lemma other_labels_nonempty: "other_labels label \<noteq> []"
proof -
  have "py_lower ''Agency'' \<noteq> py_lower ''Closing''" by code_simp
  then have "py_lower ''Agency'' \<noteq> py_lower label \<or> py_lower ''Closing'' \<noteq> py_lower label"
    by metis
  moreover have "''Agency'' \<in> set LABELS" "''Closing'' \<in> set LABELS"
    by (simp_all add: LABELS_def)
  ultimately have "\<exists>l \<in> set LABELS. py_lower l \<noteq> py_lower label" by blast
  then show ?thesis by (auto simp: other_labels_def filter_empty_conv)
qed

text \<open>A label that starts with a non-space character does not stand at a space.\<close>

lemma lit_match_space_head:
  assumes "l \<noteq> []" "\<not> is_space (hd l)" "lit_match True l (x # xs)"
  shows "\<not> is_space x"
proof -
  obtain c s where l: "l = c # s" using assms(1) by (cases l) auto
  from assms(3) have "lower_char x = lower_char c" by (simp add: l lit_match_Cons)
  with assms(2) show ?thesis using lower_eq_space [of x c] by (auto simp: l)
qed

lemma lit_match_nonempty: "l \<noteq> [] \<Longrightarrow> lit_match ic l s \<Longrightarrow> s \<noteq> []"
  by (auto simp: lit_match_def)

lemma stops_at_head:
  assumes "\<And>l. l \<in> set ls \<Longrightarrow> l \<noteq> [] \<and> \<not> is_space (hd l)" and "stops_at ls s"
  shows "s \<noteq> [] \<and> \<not> is_space (hd s)"
proof -
  from assms(2) obtain l where l: "l \<in> set ls" "lit_match True l s"
    by (auto simp: stops_at_def label_at_def split: if_splits)
  from assms(1) [OF l(1)] have ne: "l \<noteq> []" "\<not> is_space (hd l)" by auto
  from lit_match_nonempty [OF ne(1) l(2)] obtain x xs where s: "s = x # xs" by (cases s) auto
  from lit_match_space_head [OF ne l(2) [unfolded s]] show ?thesis by (simp add: s)
qed

subsection \<open>Optional whitespace and a colon\<close>

lemma rmatch_seqs_colon:
  "rmatch True (seqs (Lit CHR '':'' # rs)) (sn, d, gs) =
     (case d of
        [] \<Rightarrow> []
      | c # r \<Rightarrow> if c = CHR '':'' then rmatch True (seqs rs) (CHR '':'' # sn, r, gs) else [])"
  by (cases d) (auto simp: rmatch_seqs_Cons lower_colon)

lemma ws_colon:
  "rmatch True (seqs (ws_star # Lit CHR '':'' # rs)) (sn, a, gs) =
     (case dropWhile is_space a of
        [] \<Rightarrow> []
      | c # r \<Rightarrow>
          if c = CHR '':''
          then rmatch True (seqs rs) (CHR '':'' # rev (takeWhile is_space a) @ sn, r, gs)
          else [])"
proof -
  let ?F = "rmatch True (seqs (Lit CHR '':'' # rs))"
  have z: "\<And>k. k < length (takeWhile is_space a) \<Longrightarrow>
             ?F (rev (take k a) @ sn, drop k a, gs) = []"
  proof -
    fix k assume k: "k < length (takeWhile is_space a)"
    have "rmatch True (Lit CHR '':'') (rev (take k a) @ sn, drop k a, gs) = []"
      using k by (rule rmatch_Lit_class_fail) (auto simp: lower_colon not_space_colon)
    then show "?F (rev (take k a) @ sn, drop k a, gs) = []"
      by (simp add: rmatch_seqs_Cons)
  qed
  have "rmatch True (seqs (ws_star # Lit CHR '':'' # rs)) (sn, a, gs)
        = concat (map ?F (rmatch True (Rep True 0 None is_space) (sn, a, gs)))"
    by (simp only: rmatch_seqs_Cons ws_star_def)
  also have "\<dots> = ?F (rev (takeWhile is_space a) @ sn, dropWhile is_space a, gs)"
    using rep_then [of is_space a ?F sn gs True True 0 None, OF z] by simp
  finally show ?thesis by (simp only: rmatch_seqs_colon)
qed

lemma ws_colon_nonempty:
  "rmatch True (seqs [ws_star, Lit CHR '':'']) (sn, d, gs) \<noteq> [] \<longleftrightarrow> colon_next d"
  by (cases "dropWhile is_space d")
     (simp_all del: dropWhile_eq_Nil_conv add: ws_colon rmatch_seqs_Nil colon_next_def)

lemma label_at_iff:
  "label_at l s \<noteq> None \<longleftrightarrow> lit_match True l s \<and> colon_next (drop (length l) s)"
  by (cases "dropWhile is_space (drop (length l) s)")
     (simp_all del: dropWhile_eq_Nil_conv add: label_at_def colon_next_def)

subsection \<open>The alternation of the stop labels\<close>

lemma rmatch_alts_lits:
  "ls \<noteq> [] \<Longrightarrow>
   rmatch ic (alts (map lits ls)) st = concat (map (\<lambda>l. rmatch ic (lits l) st) ls)"
proof (induction ls)
  case Nil
  then show ?case by simp
next
  case (Cons l ls)
  then show ?case by (cases ls) simp_all
qed

lemma concat_nonempty: "concat xss \<noteq> [] \<longleftrightarrow> (\<exists>xs \<in> set xss. xs \<noteq> [])"
  by (induction xss) auto

lemma alts_then_colon:
  assumes "ls \<noteq> []"
  shows "rmatch True (seqs [alts (map lits ls), ws_star, Lit CHR '':'']) (sn, w, gs) \<noteq> []
         \<longleftrightarrow> stops_at ls w"
proof -
  let ?G = "rmatch True (seqs [ws_star, Lit CHR '':''])"
  have "rmatch True (seqs [alts (map lits ls), ws_star, Lit CHR '':'']) (sn, w, gs)
        = concat (map ?G (concat (map (\<lambda>l. rmatch True (lits l) (sn, w, gs)) ls)))"
    by (simp only: rmatch_seqs_Cons rmatch_alts_lits [OF assms])
  also have "\<dots> \<noteq> [] \<longleftrightarrow>
       (\<exists>st \<in> set (concat (map (\<lambda>l. rmatch True (lits l) (sn, w, gs)) ls)). ?G st \<noteq> [])"
    unfolding concat_nonempty by auto
  also have "\<dots> \<longleftrightarrow> (\<exists>l \<in> set ls. lit_match True l w \<and> colon_next (drop (length l) w))"
    by (auto simp: rmatch_lits ws_colon_nonempty split: if_splits)
  finally show ?thesis unfolding stops_at_def label_at_iff .
qed

lemma look_stop_labels:
  assumes ne: "ls \<noteq> []" and st: "\<And>l. l \<in> set ls \<Longrightarrow> l \<noteq> [] \<and> \<not> is_space (hd l)"
  shows "rmatch True (seqs [ws_star, alts (map lits ls), ws_star, Lit CHR '':'']) (sn, w, gs) \<noteq> []
         \<longleftrightarrow> stops_at ls (dropWhile is_space w)"
proof -
  let ?F = "rmatch True (seqs [alts (map lits ls), ws_star, Lit CHR '':''])"
  have z: "\<And>k. k < length (takeWhile is_space w) \<Longrightarrow>
             ?F (rev (take k w) @ sn, drop k w, gs) = []"
  proof -
    fix k assume k: "k < length (takeWhile is_space w)"
    then have kl: "k < length w" using length_takeWhile_le [of is_space w] by simp
    from k have "is_space (takeWhile is_space w ! k)" using nth_mem set_takeWhileD by metis
    then have p: "is_space (w ! k)" using k by (simp add: takeWhile_nth)
    from kl have d: "drop k w = w ! k # drop (Suc k) w" by (simp add: Cons_nth_drop_Suc)
    have "\<not> stops_at ls (drop k w)"
      using stops_at_head [of ls "drop k w"] st p unfolding d by auto
    then show "?F (rev (take k w) @ sn, drop k w, gs) = []"
      using alts_then_colon [OF ne] by blast
  qed
  have "rmatch True (seqs [ws_star, alts (map lits ls), ws_star, Lit CHR '':'']) (sn, w, gs)
        = concat (map ?F (rmatch True (Rep True 0 None is_space) (sn, w, gs)))"
    by (simp only: rmatch_seqs_Cons ws_star_def)
  also have "\<dots> = ?F (rev (takeWhile is_space w) @ sn, dropWhile is_space w, gs)"
    using rep_then [of is_space w ?F sn gs True True 0 None, OF z] by simp
  finally show ?thesis using alts_then_colon [OF ne] by simp
qed

lemma label_stop_nonempty:
  "rmatch True (label_stop label) (sn, w, gs) \<noteq> [] \<longleftrightarrow> look_ok (other_labels label) w"
proof -
  have "rmatch True (seqs [ws_star, alts (map lits (other_labels label)), ws_star, Lit CHR '':''])
          (sn, w, gs) \<noteq> []
        \<longleftrightarrow> stops_at (other_labels label) (dropWhile is_space w)"
    by (rule look_stop_labels [OF other_labels_nonempty other_labels_start])
  then show ?thesis by (auto simp: label_stop_def look_ok_def)
qed

lemma rmatch_look_stop:
  "rmatch True (Look (label_stop label)) (sn, w, gs) =
     (if look_ok (other_labels label) w then [(sn, w, gs)] else [])"
  using label_stop_nonempty [of label sn w gs] by (auto split: list.splits)

section \<open>The lazy group and the lookahead\<close>

lemma first_match_map: "map_option g (first_match xs) = first_match (map g xs)"
  by (cases xs) simp_all

lemma first_match_append: "xs \<noteq> [] \<Longrightarrow> first_match (xs @ ys) = first_match xs"
  by (cases xs) simp_all

lemma rmatch_seqs_single_fun: "rmatch ic (seqs [r]) = rmatch ic r"
  by (rule ext) (rule rmatch_seqs_single)

lemma cut_before_first:
  assumes "Q []"
  shows "\<exists>ks. map (\<lambda>k. take k v) (filter (\<lambda>k. Q (drop k v)) [0 ..< Suc (length v)])
               = cut_before Q v # ks"
proof (induction v)
  case Nil
  show ?case using assms by simp
next
  case (Cons c cs)
  have u: "[0 ..< Suc (length (c # cs))] = 0 # map Suc [0 ..< Suc (length cs)]"
    by (simp only: length_Cons upt_conv_Cons [of 0] zero_less_Suc map_Suc_upt [symmetric])
  show ?case
  proof (cases "Q (c # cs)")
    case True
    then show ?thesis unfolding u by simp
  next
    case False
    from Cons obtain ks where ks:
      "map (\<lambda>k. take k cs) (filter (\<lambda>k. Q (drop k cs)) [0 ..< Suc (length cs)])
         = cut_before Q cs # ks" by (elim exE)
    have "map (\<lambda>k. take k (c # cs)) (filter (\<lambda>k. Q (drop k (c # cs))) [0 ..< Suc (length (c # cs))])
        = map ((#) c) (map (\<lambda>k. take k cs) (filter (\<lambda>k. Q (drop k cs)) [0 ..< Suc (length cs)]))"
      unfolding u using False by (simp add: filter_map comp_def)
    then show ?thesis unfolding ks using False by simp
  qed
qed

lemma concat_map_if: "concat (map (\<lambda>k. if P k then [f k] else []) ks) = map f (filter P ks)"
  by (induction ks) auto

lemma takeWhile_no_newline: "CHR 0x0A \<notin> set v \<Longrightarrow> takeWhile (\<lambda>c. c \<noteq> CHR 0x0A) v = v"
  by (induction v) auto

lemma rmatch_lazy_group:
  assumes "CHR 0x0A \<notin> set v"
  shows "rmatch ic (Grp i (Rep False 0 None (\<lambda>c. c \<noteq> CHR 0x0A))) (sn, v, gs)
         = map (\<lambda>k. (rev (take k v) @ sn, drop k v, (i, take k v) # gs)) [0 ..< Suc (length v)]"
proof -
  have l: "rep_lens False 0 None (\<lambda>c. c \<noteq> CHR 0x0A) v = [0 ..< Suc (length v)]"
    by (simp only: rep_lens_def max_run_def Let_def takeWhile_no_newline [OF assms]
        option.case if_False)
  have "rmatch ic (Grp i (Rep False 0 None (\<lambda>c. c \<noteq> CHR 0x0A))) (sn, v, gs)
        = map (\<lambda>k. (rev (take k v) @ sn, drop k v, (i, take (length v - length (drop k v)) v) # gs))
            [0 ..< Suc (length v)]"
    by (simp only: rmatch.simps l map_map comp_def prod.case)
  also have "\<dots> = map (\<lambda>k. (rev (take k v) @ sn, drop k v, (i, take k v) # gs)) [0 ..< Suc (length v)]"
    by (rule map_cong) (auto simp del: upt_Suc)
  finally show ?thesis .
qed

lemma lazy_group_first:
  assumes "CHR 0x0A \<notin> set v"
  shows "map_option (\<lambda>m. group m 1)
           (first_match (rmatch True
              (seqs [Grp 1 (Rep False 0 None (\<lambda>c. c \<noteq> CHR 0x0A)), Look (label_stop label)])
              (sn, v, [])))
         = Some (Some (cut_before (look_ok (other_labels label)) v))"
proof -
  let ?Q = "look_ok (other_labels label)"
  let ?S = "\<lambda>k. (rev (take k v) @ sn, drop k v, [(1::nat, take k v)])"
  have "rmatch True
          (seqs [Grp 1 (Rep False 0 None (\<lambda>c. c \<noteq> CHR 0x0A)), Look (label_stop label)])
          (sn, v, [])
        = concat (map (rmatch True (Look (label_stop label))) (map ?S [0 ..< Suc (length v)]))"
    by (simp only: rmatch_seqs_Cons rmatch_seqs_Nil_fun rmatch_lazy_group [OF assms]
        rmatch_seqs_single_fun)
  also have "\<dots> = concat (map (\<lambda>k. if ?Q (drop k v) then [?S k] else []) [0 ..< Suc (length v)])"
    by (simp only: map_map comp_def rmatch_look_stop)
  also have "\<dots> = map ?S (filter (\<lambda>k. ?Q (drop k v)) [0 ..< Suc (length v)])"
    by (rule concat_map_if)
  finally have e: "map (\<lambda>m. group m 1) (rmatch True
          (seqs [Grp 1 (Rep False 0 None (\<lambda>c. c \<noteq> CHR 0x0A)), Look (label_stop label)])
          (sn, v, []))
        = map Some (map (\<lambda>k. take k v) (filter (\<lambda>k. ?Q (drop k v)) [0 ..< Suc (length v)]))"
    by (simp add: group_def comp_def del: upt_Suc)
  have "?Q []" by (simp add: look_ok_def)
  from cut_before_first [of ?Q v, OF this] obtain ks where
    "map (\<lambda>k. take k v) (filter (\<lambda>k. ?Q (drop k v)) [0 ..< Suc (length v)])
       = cut_before ?Q v # ks" by (elim exE)
  then show ?thesis unfolding first_match_map e by simp
qed

section \<open>Cutting before a stop label, with or without the whitespace before it\<close>

lemma cut_before_spaces:
  assumes "\<And>s. Q s \<Longrightarrow> s \<noteq> [] \<and> \<not> is_space (hd s)" and "list_all is_space ws"
  shows "cut_before Q (ws @ s) = ws @ cut_before Q s"
  using assms(2)
proof (induction ws)
  case Nil
  then show ?case by simp
next
  case (Cons c ws)
  then have "\<not> Q (c # ws @ s)" using assms(1) [of "c # ws @ s"] by auto
  with Cons show ?case by simp
qed

lemma cut_before_hit: "Q s \<Longrightarrow> cut_before Q s = []"
  by (cases s) simp_all

lemma cut_stop_look:
  assumes st: "\<And>l. l \<in> set ls \<Longrightarrow> l \<noteq> [] \<and> \<not> is_space (hd l)"
    and nl: "CHR 0x0A \<notin> set v"
  shows "\<exists>ws. list_all is_space ws
            \<and> cut_before (stops_at ls) v = cut_before (look_ok ls) v @ ws"
  using nl
proof (induction v)
  case Nil
  then show ?case by simp
next
  case (Cons c cs)
  note head = stops_at_head [of ls, OF st]
  show ?case
  proof (cases "stops_at ls (c # cs)")
    case True
    with head [of "c # cs"] have "\<not> is_space c" by simp
    with True have "look_ok ls (c # cs)" by (simp add: look_ok_def)
    with True show ?thesis by simp
  next
    case False
    show ?thesis
    proof (cases "look_ok ls (c # cs)")
      case True
      let ?w = "takeWhile is_space (c # cs)" and ?d = "dropWhile is_space (c # cs)"
      from True Cons.prems have d: "stops_at ls ?d"
        unfolding look_ok_def by auto
      have "cut_before (stops_at ls) (?w @ ?d) = ?w @ cut_before (stops_at ls) ?d"
        by (rule cut_before_spaces) (use head in \<open>auto simp: list_all_iff dest: set_takeWhileD\<close>)
      then have "cut_before (stops_at ls) (c # cs) = ?w"
        using cut_before_hit [of "stops_at ls" ?d, OF d]
        by (simp only: takeWhile_dropWhile_id append_Nil2)
      moreover have "list_all is_space ?w" by (auto simp: list_all_iff dest: set_takeWhileD)
      ultimately show ?thesis using True by (simp del: takeWhile.simps)
    next
      case nolook: False
      from Cons obtain ws where "list_all is_space ws"
          "cut_before (stops_at ls) cs = cut_before (look_ok ls) cs @ ws" by auto
      with False nolook show ?thesis by simp
    qed
  qed
qed

lemma clean_cut_eq:
  assumes "CHR 0x0A \<notin> set v"
  shows "clean_text (Some (cut_before (look_ok (other_labels label)) v))
       = clean_text (Some (cut_before (stops_at (other_labels label)) v))"
proof -
  have "\<exists>ws. list_all is_space ws
            \<and> cut_before (stops_at (other_labels label)) v
                = cut_before (look_ok (other_labels label)) v @ ws"
  proof (rule cut_stop_look)
    fix l assume "l \<in> set (other_labels label)"
    then show "l \<noteq> [] \<and> \<not> is_space (hd l)" by (rule other_labels_start)
  qed (rule assms)
  then obtain ws where "list_all is_space ws"
    "cut_before (stops_at (other_labels label)) v
       = cut_before (look_ok (other_labels label)) v @ ws" by (elim exE conjE)
  then show ?thesis by (simp add: clean_text_append_spaces)
qed

lemma stops_at_other_labels: "stops_at (other_labels label) = other_label_at label"
  by (rule ext) (auto simp: stops_at_def other_label_at_def other_labels_def)

section \<open>The whole label pattern at one position\<close>

lemma ws_then_first:
  assumes "first_match (F (rev (takeWhile is_space r) @ sn, dropWhile is_space r, gs)) \<noteq> None"
  shows "first_match (concat (map F (rmatch ic ws_star (sn, r, gs))))
       = first_match (F (rev (takeWhile is_space r) @ sn, dropWhile is_space r, gs))"
proof -
  let ?n = "length (takeWhile is_space r)"
  have "rmatch ic ws_star (sn, r, gs)
        = (rev (takeWhile is_space r) @ sn, dropWhile is_space r, gs)
            # map (\<lambda>k. (rev (take k r) @ sn, drop k r, gs)) (rev [0 ..< ?n])"
    by (simp add: ws_star_def rep_lens_greedy take_run drop_takeWhile_length)
  moreover from assms have "F (rev (takeWhile is_space r) @ sn, dropWhile is_space r, gs) \<noteq> []"
    by (auto simp: first_match_def)
  ultimately show ?thesis by (simp add: first_match_append)
qed

lemma set_dropWhile_subset: "x \<notin> set xs \<Longrightarrow> x \<notin> set (dropWhile P xs)"
  by (meson set_dropWhileD)

lemma label_pattern_first:
  assumes nl: "CHR 0x0A \<notin> set ahead"
  shows "map_option (\<lambda>m. clean_text (group m 1))
           (first_match (rmatch True (label_pattern label) (sn, ahead, [])))
         = label_value label ahead"
proof (cases "label_at label ahead")
  case None
  then have "\<not> (lit_match True label ahead \<and> colon_next (drop (length label) ahead))"
    using label_at_iff [of label ahead] by simp
  then have "rmatch True (label_pattern label) (sn, ahead, []) = []"
    unfolding label_pattern_def
    by (cases "dropWhile is_space (drop (length label) ahead)")
       (auto simp del: dropWhile_eq_Nil_conv simp: rmatch_seqs_Cons [of True "lits label"]
          rmatch_lits ws_colon colon_next_def)
  with None show ?thesis by (simp add: label_value_def)
next
  case (Some v)
  then have lm: "lit_match True label ahead"
    and d: "\<exists>r. dropWhile is_space (drop (length label) ahead) = CHR '':'' # r
               \<and> v = dropWhile is_space r"
    by (auto simp: label_at_def split: if_splits list.splits)
  from d obtain r where r: "dropWhile is_space (drop (length label) ahead) = CHR '':'' # r"
    and v: "v = dropWhile is_space r" by blast
  have "CHR 0x0A \<notin> set (dropWhile is_space (drop (length label) ahead))"
    using nl by (meson set_dropWhileD in_set_dropD)
  then have "CHR 0x0A \<notin> set r" unfolding r by simp
  then have nv: "CHR 0x0A \<notin> set v" unfolding v by (rule set_dropWhile_subset)
  let ?sn = "CHR '':'' # rev (takeWhile is_space (drop (length label) ahead))
               @ rev (take (length label) ahead) @ sn"
  let ?H = "rmatch True
              (seqs [Grp 1 (Rep False 0 None (\<lambda>c. c \<noteq> CHR 0x0A)), Look (label_stop label)])"
  have e: "rmatch True (label_pattern label) (sn, ahead, [])
        = concat (map ?H (rmatch True ws_star (?sn, r, [])))"
    unfolding label_pattern_def
    using lm r
    by (simp add: rmatch_seqs_Cons [of True "lits label"] rmatch_lits ws_colon
        rmatch_seqs_Cons [of True ws_star "[_, _]"] del: rmatch.simps)
  have g: "\<And>s. map_option (\<lambda>m. group m 1) (first_match (?H (s, v, [])))
        = Some (Some (cut_before (look_ok (other_labels label)) v))"
    using lazy_group_first [OF nv] .
  then have ne: "\<And>s. first_match (?H (s, v, [])) \<noteq> None" by (metis option.map_disc_iff option.distinct(1))
  have "first_match (rmatch True (label_pattern label) (sn, ahead, []))
        = first_match (?H (rev (takeWhile is_space r) @ ?sn, v, []))"
    unfolding e v by (rule ws_then_first) (use ne v in simp)
  then have "map_option (\<lambda>m. group m 1) (first_match (rmatch True (label_pattern label) (sn, ahead, [])))
        = Some (Some (cut_before (look_ok (other_labels label)) v))"
    using g by simp
  then have "map_option (\<lambda>m. clean_text (group m 1))
           (first_match (rmatch True (label_pattern label) (sn, ahead, [])))
        = Some (clean_text (Some (cut_before (look_ok (other_labels label)) v)))"
    by (cases "first_match (rmatch True (label_pattern label) (sn, ahead, []))") auto
  with Some show ?thesis
    by (simp add: label_value_def clean_cut_eq [OF nv] stops_at_other_labels)
qed

lemma find_label_leftmost:
  assumes "CHR 0x0A \<notin> set txt"
  shows "find_label txt label = leftmost (\<lambda>_. label_value label) [] txt"
proof -
  have "map_option (\<lambda>m. clean_text (group m 1))
          (re_search_from True (label_pattern label) [] txt)
        = leftmost (\<lambda>_. label_value label) [] txt"
  proof (rule re_search_from_leftmost)
    fix seen ahead assume "suffix ahead txt"
    then have "CHR 0x0A \<notin> set ahead" using assms by (meson set_mono_suffix subsetD)
    then show "map_option (\<lambda>m. clean_text (group m 1))
          (first_match (rmatch True (label_pattern label) (seen, ahead, [])))
        = label_value label ahead" by (rule label_pattern_first)
  qed
  then show ?thesis
    unfolding find_label_def re_search_def
    by (cases "re_search_from True (label_pattern label) [] txt") auto
qed

section \<open>The date-token patterns\<close>

lemma digit_is_word: "is_digit c \<Longrightarrow> is_word c"
  by (simp add: is_word_def)

lemma separated_shapes: "separated word_day_year" "separated slash_date" "separated iso_date"
  by (simp_all add: word_day_year_def slash_date_def iso_date_def digit_is_word
      is_digit_def is_ascii_alpha_def)

lemma pattern_shapes:
  "month_day_year_pattern = seqs [WordB, Grp 1 (seqs (map rx_of_piece word_day_year)), WordB]"
  "slash_date_pattern = seqs [WordB, Grp 1 (seqs (map rx_of_piece slash_date)), WordB]"
  "iso_date_pattern = seqs [WordB, Grp 1 (seqs (map rx_of_piece iso_date)), WordB]"
  by (simp_all add: month_day_year_pattern_def slash_date_pattern_def iso_date_pattern_def
      word_day_year_def slash_date_def iso_date_def)

lemma search_token:
  assumes "separated ps"
  shows "map_option (\<lambda>m. group m i)
           (re_search False (seqs [WordB, Grp i (seqs (map rx_of_piece ps)), WordB]) t)
         = map_option Some (leftmost (date_token ps) [] t)"
proof -
  have "map_option (\<lambda>m. group m i)
          (re_search_from False (seqs [WordB, Grp i (seqs (map rx_of_piece ps)), WordB]) [] t)
        = leftmost (\<lambda>b a. map_option Some (date_token ps b a)) [] t"
    by (rule re_search_from_leftmost) (rule token_pattern_first [OF assms])
  then show ?thesis unfolding leftmost_map_option re_search_def .
qed

lemma option_bridge2:
  "map_option g x = map_option Some y \<Longrightarrow>
   (case x of Some m \<Rightarrow> f (g m) | None \<Rightarrow> z) = (case y of Some v \<Rightarrow> f (Some v) | None \<Rightarrow> z)"
  by (cases x; cases y) auto

section \<open>The Tag Classifier follows the rule table\<close>

lemma rules_loop_filter:
  "rules_loop rules hay tgs =
     tgs @ map fst (filter (\<lambda>(tag, kws). list_ex (\<lambda>kw. py_in kw hay) kws) rules)"
  by (induction rules hay tgs rule: rules_loop.induct) auto

lemma dedup_loop_distinct:
  "distinct ts \<Longrightarrow> set ts \<inter> seen = {} \<Longrightarrow> dedup_loop ts seen out = out @ ts"
  by (induction ts arbitrary: seen out) auto

lemma dedup_loop_set: "set (dedup_loop ts seen out) = set out \<union> (set ts - seen)"
  by (induction ts arbitrary: seen out) auto

lemma keywords_lowercase:
  "list_all (\<lambda>(tag, kws). list_all (\<lambda>kw. py_lower kw = kw) kws) TAG_RULES"
  by code_simp

lemma tag_names_distinct:
  "distinct (map fst TAG_RULES @ [''has_deadline'', ''cost_sharing''])"
  by (simp add: TAG_RULES_def)

lemma rule_fires_iff:
  assumes "rule \<in> set TAG_RULES"
  shows "(case rule of (tag, kws) \<Rightarrow> list_ex (\<lambda>kw. py_in kw hay) kws) \<longleftrightarrow> rule_fires hay rule"
proof -
  obtain tag kws where r: "rule = (tag, kws)" by (cases rule)
  have "\<forall>kw \<in> set kws. py_lower kw = kw"
    using keywords_lowercase assms unfolding r list_all_iff by fastforce
  then show ?thesis
    by (auto simp: r rule_fires_def list_ex_iff py_in_sublist)
qed

lemma example_tags:
  "tags (apply_tags example_opportunity) = [''climate_environment'', ''has_deadline'']"
  unfolding example_opportunity_def by code_simp

text \<open>
  Claim C2, as the code has it. The tags of a record are the tags of the rules that fire
  on the lowercase concatenation, in table order, then \<open>has_deadline\<close> when the close
  date is populated, then \<open>cost_sharing\<close> when the flag is explicitly true; the list has
  no duplicates. (The rule \<open>ai_ml\<close> has no keyword \<open>ai\<close>: see the counterexample.)
\<close>

theorem apply_tags_rule_table:
  "tags (apply_tags opp) =
     map fst (filter (rule_fires (hay_of opp)) TAG_RULES)
       @ (if truthy (close_date opp) then [''has_deadline''] else [])
       @ (if is_cost_sharing opp = Some True then [''cost_sharing''] else [])
   \<and> distinct (tags (apply_tags opp))"
proof -
  let ?fired = "map fst (filter (rule_fires (hay_of opp)) TAG_RULES)"
  let ?tgs = "?fired @ (if truthy (close_date opp) then [''has_deadline''] else [])
       @ (if is_cost_sharing opp = Some True then [''cost_sharing''] else [])"
  have f: "filter (\<lambda>(tag, kws). list_ex (\<lambda>kw. py_in kw (hay_of opp)) kws) TAG_RULES
         = filter (rule_fires (hay_of opp)) TAG_RULES"
    by (rule filter_cong) (auto simp: rule_fires_iff)
  have d1: "distinct (map fst TAG_RULES)" and
       d2: "''has_deadline'' \<notin> set (map fst TAG_RULES)" and
       d3: "''cost_sharing'' \<notin> set (map fst TAG_RULES)"
    using tag_names_distinct by auto
  have df: "distinct ?fired" using d1 by (rule distinct_map_filter)
  have sub: "set ?fired \<subseteq> set (map fst TAG_RULES)" by auto
  have d: "distinct ?tgs" using df sub d2 d3 by auto
  have "tags (apply_tags opp) = dedup_loop ?tgs {} []"
    by (simp add: apply_tags_def Let_def rules_loop_filter f)
  also have "\<dots> = ?tgs" using dedup_loop_distinct [OF d, of "{}" "[]"] by simp
  finally show ?thesis using d by simp
qed

text \<open>
  On the record of the example the rules that fire are exactly \<open>climate_environment\<close>;
  with the populated close date the tags are \<open>climate_environment\<close>, \<open>has_deadline\<close>.
\<close>

theorem apply_tags_rule_table_witness:
  "map fst (filter (rule_fires (hay_of example_opportunity)) TAG_RULES) = [''climate_environment'']
   \<and> tags (apply_tags example_opportunity) = [''climate_environment'', ''has_deadline'']
   \<and> distinct (tags (apply_tags example_opportunity))"
proof -
  have c: "truthy (close_date example_opportunity)"
          "is_cost_sharing example_opportunity \<noteq> Some True"
    by (simp_all add: example_opportunity_def new_opportunity_def truthy_def)
  show ?thesis
    using apply_tags_rule_table [of example_opportunity] c
    by (simp add: example_tags)
qed

text \<open>
  The claim as stated fails: the record with title \<open>AI for Climate Resilience\<close> and a
  populated close date does not get the tag \<open>ai_ml\<close>.
\<close>

theorem apply_tags_example_counterexample:
  "opportunity_title example_opportunity = Some ''AI for Climate Resilience''
   \<and> truthy (close_date example_opportunity)
   \<and> ''ai_ml'' \<notin> set (tags (apply_tags example_opportunity))"
  by (simp add: example_tags) (simp add: example_opportunity_def new_opportunity_def truthy_def)

section \<open>The Label Extractor returns the value up to the next other label\<close>

text \<open>
  Claim C1. On every normalized page text (a result of \<open>clean_text\<close>) and for every
  label, \<open>find_label\<close> returns the value of the leftmost place where the label stands,
  case-insensitively, followed by optional whitespace and a colon: the text behind the
  colon up to, but not including, the next place where another label of the vocabulary
  stands followed by a colon, or up to the end of the text, whitespace-normalized; and
  the absent result if the label stands nowhere in that way. The other labels are stated
  here from the vocabulary itself (\<open>other_label_at\<close>: a label of \<open>LABELS\<close> that is not the
  target), not through the list the code computes.
\<close>

theorem find_label_value:
  "find_label (clean_text raw) label = leftmost (\<lambda>_. label_value label) [] (clean_text raw)"
  by (rule find_label_leftmost) (rule clean_text_no_newline)

text \<open>
  The example of the claim: the agency, cut before \<open>Closing date:\<close>. In the second text
  the target label stands twice: the second \<open>Agency:\<close> is not another label, so it does
  not end the value, while \<open>Closing date:\<close> does. The third text shows the comparison
  without regard to case, of the target and of the stop label.
\<close>

theorem find_label_value_witness:
  "clean_text (Some ''Agency: National Science Foundation Closing date: 08/01/2025'')
     = ''Agency: National Science Foundation Closing date: 08/01/2025''
   \<and> label_at ''Agency'' ''Agency: National Science Foundation Closing date: 08/01/2025''
     = Some ''National Science Foundation Closing date: 08/01/2025''
   \<and> cut_before (other_label_at ''Agency'')
        ''National Science Foundation Closing date: 08/01/2025''
     = ''National Science Foundation ''
   \<and> find_label ''Agency: National Science Foundation Closing date: 08/01/2025'' ''Agency''
     = Some ''National Science Foundation''
   \<and> \<not> other_label_at ''Agency'' ''Agency: B Closing date: x''
   \<and> other_label_at ''Agency'' ''Closing date: x''
   \<and> find_label (clean_text (Some ''Agency: A Agency: B Closing date: x'')) ''Agency''
     = Some ''A Agency: B''
   \<and> find_label (clean_text (Some ''AGENCY : nsf closing DATE: x'')) ''Agency''
     = Some ''nsf''"
proof -
  let ?t = "''Agency: National Science Foundation Closing date: 08/01/2025''"
  have c: "clean_text (Some ?t) = ?t" by code_simp
  have a: "label_at ''Agency'' ?t = Some ''National Science Foundation Closing date: 08/01/2025''"
    by code_simp
  have b: "cut_before (other_label_at ''Agency'')
        ''National Science Foundation Closing date: 08/01/2025''
     = ''National Science Foundation ''"
    by code_simp
  have v: "leftmost (\<lambda>_. label_value ''Agency'') [] ?t = Some ''National Science Foundation''"
    by code_simp
  from find_label_value [of "Some ?t" "''Agency''"]
  have f: "find_label ?t ''Agency'' = Some ''National Science Foundation''"
    unfolding c v .
  have n: "\<not> other_label_at ''Agency'' ''Agency: B Closing date: x''" by code_simp
  have o: "other_label_at ''Agency'' ''Closing date: x''" by code_simp
  have v2: "leftmost (\<lambda>_. label_value ''Agency'') []
              (clean_text (Some ''Agency: A Agency: B Closing date: x''))
            = Some ''A Agency: B''"
    by code_simp
  have f2: "find_label (clean_text (Some ''Agency: A Agency: B Closing date: x'')) ''Agency''
     = Some ''A Agency: B''"
    unfolding find_label_value v2 ..
  have v3: "leftmost (\<lambda>_. label_value ''Agency'') []
              (clean_text (Some ''AGENCY : nsf closing DATE: x''))
            = Some ''nsf''"
    by code_simp
  have f3: "find_label (clean_text (Some ''AGENCY : nsf closing DATE: x'')) ''Agency''
     = Some ''nsf''"
    unfolding find_label_value v3 ..
  show ?thesis by (intro conjI c a b f n o f2 f3)
qed

section \<open>Label matching is not anchored at label boundaries\<close>

lemma label_value_None: "label_value label s = None \<longleftrightarrow> label_at label s = None"
  by (simp add: label_value_def)

text \<open>The leftmost position, and the cut, in terms of positions of the text.\<close>

lemma all_less_Suc_shift: "(\<forall>m<Suc n. P m) \<longleftrightarrow> P 0 \<and> (\<forall>m<n. P (Suc m))"
  by (metis less_Suc_eq_0_disj Suc_less_eq zero_less_Suc)

lemma leftmost_position:
  "leftmost (\<lambda>_. g) before s = Some r \<longleftrightarrow>
     (\<exists>n\<le>length s. g (drop n s) = Some r \<and> (\<forall>m<n. g (drop m s) = None))"
proof (induction s arbitrary: before)
  case Nil
  then show ?case by simp
next
  case (Cons c cs)
  show ?case
  proof (cases "g (c # cs)")
    case (Some x)
    have "(\<exists>n\<le>length (c # cs). g (drop n (c # cs)) = Some r \<and> (\<forall>m<n. g (drop m (c # cs)) = None))
          \<longleftrightarrow> x = r"
    proof
      assume "\<exists>n\<le>length (c # cs). g (drop n (c # cs)) = Some r
                \<and> (\<forall>m<n. g (drop m (c # cs)) = None)"
      then obtain n where n: "g (drop n (c # cs)) = Some r"
          "\<forall>m<n. g (drop m (c # cs)) = None" by (elim exE conjE)
      have "n = 0"
      proof (rule ccontr)
        assume "n \<noteq> 0"
        then have "0 < n" by simp
        with n(2) have "g (drop 0 (c # cs)) = None" by blast
        with Some show False by simp
      qed
      with n(1) Some show "x = r" by simp
    next
      assume "x = r"
      with Some have "g (drop 0 (c # cs)) = Some r \<and> (\<forall>m<0. g (drop m (c # cs)) = None)"
        by simp
      then show "\<exists>n\<le>length (c # cs). g (drop n (c # cs)) = Some r
                \<and> (\<forall>m<n. g (drop m (c # cs)) = None)"
        by (intro exI [of _ 0]) simp
    qed
    with Some show ?thesis by simp
  next
    case None
    have "(\<exists>n\<le>length (c # cs). g (drop n (c # cs)) = Some r \<and> (\<forall>m<n. g (drop m (c # cs)) = None))
          \<longleftrightarrow> (\<exists>n\<le>length cs. g (drop n cs) = Some r \<and> (\<forall>m<n. g (drop m cs) = None))"
    proof
      assume "\<exists>n\<le>length (c # cs). g (drop n (c # cs)) = Some r
                \<and> (\<forall>m<n. g (drop m (c # cs)) = None)"
      then obtain n where n: "n \<le> length (c # cs)" "g (drop n (c # cs)) = Some r"
          "\<forall>m<n. g (drop m (c # cs)) = None" by (elim exE conjE)
      from n(2) None have "n \<noteq> 0" by (cases n) auto
      then obtain k where k: "n = Suc k" by (cases n) auto
      from n(3) have "\<forall>m<k. g (drop m cs) = None"
        unfolding k all_less_Suc_shift by simp
      with n(1,2) k show "\<exists>n\<le>length cs. g (drop n cs) = Some r \<and> (\<forall>m<n. g (drop m cs) = None)"
        by (intro exI [of _ k]) simp
    next
      assume "\<exists>n\<le>length cs. g (drop n cs) = Some r \<and> (\<forall>m<n. g (drop m cs) = None)"
      then obtain k where k: "k \<le> length cs" "g (drop k cs) = Some r"
          "\<forall>m<k. g (drop m cs) = None" by (elim exE conjE)
      have "\<forall>m<Suc k. g (drop m (c # cs)) = None"
        unfolding all_less_Suc_shift using None k(3) by simp
      with k(1,2) show "\<exists>n\<le>length (c # cs). g (drop n (c # cs)) = Some r
                \<and> (\<forall>m<n. g (drop m (c # cs)) = None)"
        by (intro exI [of _ "Suc k"]) simp
    qed
    with None Cons.IH [of "c # before"] show ?thesis by simp
  qed
qed

lemma cut_before_position:
  assumes "k \<le> length v" and "k = length v \<or> Q (drop k v)" and "\<forall>j<k. \<not> Q (drop j v)"
  shows "cut_before Q v = take k v"
  using assms
proof (induction v arbitrary: k)
  case Nil
  then show ?case by simp
next
  case (Cons c cs)
  show ?case
  proof (cases k)
    case 0
    with Cons.prems(2) show ?thesis by simp
  next
    case (Suc k')
    from Cons.prems(3) have nq: "\<not> Q (c # cs)" and r: "\<forall>j<k'. \<not> Q (drop j cs)"
      unfolding Suc all_less_Suc_shift by simp_all
    from Cons.prems(1,2) Suc have "k' \<le> length cs" "k' = length cs \<or> Q (drop k' cs)"
      by simp_all
    then have "cut_before Q cs = take k' cs" using r by (rule Cons.IH)
    with nq Suc show ?thesis by simp
  qed
qed

lemma cut_before_position_ex:
  "\<exists>k\<le>length v. (k = length v \<or> Q (drop k v)) \<and> (\<forall>j<k. \<not> Q (drop j v))
      \<and> cut_before Q v = take k v"
proof (induction v)
  case Nil
  then show ?case by simp
next
  case (Cons c cs)
  show ?case
  proof (cases "Q (c # cs)")
    case True
    then show ?thesis by (intro exI [of _ 0]) simp
  next
    case False
    from Cons.IH obtain k where k: "k \<le> length cs" "k = length cs \<or> Q (drop k cs)"
        "\<forall>j<k. \<not> Q (drop j cs)" "cut_before Q cs = take k cs" by (elim exE conjE)
    have "\<forall>j<Suc k. \<not> Q (drop j (c # cs))"
      unfolding all_less_Suc_shift using False k(3) by simp
    with k(1,2,4) False show ?thesis by (intro exI [of _ "Suc k"]) simp
  qed
qed

lemma label_value_Some:
  "label_value label s = Some r \<longleftrightarrow>
     (\<exists>v. label_at label s = Some v
         \<and> r = clean_text (Some (cut_before (other_label_at label) v)))"
  by (cases "label_at label s") (auto simp: label_value_def)

lemma all_less_upt: "(\<forall>m<n. P m) \<longleftrightarrow> list_all P [0..<n]"
  by (auto simp: list_all_iff)

text \<open>
  Claim C3, as the code has it. Matching is not anchored at a label boundary, for the
  target and for the stop labels alike. On every normalized page text, \<open>find_label\<close>
  returns \<open>r\<close> exactly when there is a position \<open>n\<close> of the text, whatever stands before
  it, at which the characters of the target stand (case-insensitively) followed by
  optional whitespace and a colon, the target stands in that way at no earlier position,
  and \<open>r\<close> is the whitespace-normalized text from behind that colon up to the first
  position \<open>k\<close> of the rest, whatever stands before it, at which the characters of another
  vocabulary label stand followed by optional whitespace and a colon (or up to the end,
  if there is no such position). So a label that ends a longer label is matched inside
  the longer label when the colon follows, as a target and as a stop label.
\<close>

theorem find_label_unanchored:
  "find_label (clean_text raw) label = Some r \<longleftrightarrow>
     (\<exists>n v k. n \<le> length (clean_text raw)
        \<and> label_at label (drop n (clean_text raw)) = Some v
        \<and> (\<forall>m<n. label_at label (drop m (clean_text raw)) = None)
        \<and> k \<le> length v
        \<and> (k = length v \<or> other_label_at label (drop k v))
        \<and> (\<forall>j<k. \<not> other_label_at label (drop j v))
        \<and> r = clean_text (Some (take k v)))"
proof -
  let ?t = "clean_text raw"
  have "find_label ?t label = Some r \<longleftrightarrow>
        (\<exists>n\<le>length ?t. (\<exists>v. label_at label (drop n ?t) = Some v
              \<and> r = clean_text (Some (cut_before (other_label_at label) v)))
           \<and> (\<forall>m<n. label_at label (drop m ?t) = None))"
    unfolding find_label_leftmost [OF clean_text_no_newline] leftmost_position
      label_value_None label_value_Some ..
  also have "\<dots> \<longleftrightarrow>
     (\<exists>n v k. n \<le> length ?t \<and> label_at label (drop n ?t) = Some v
        \<and> (\<forall>m<n. label_at label (drop m ?t) = None)
        \<and> k \<le> length v
        \<and> (k = length v \<or> other_label_at label (drop k v))
        \<and> (\<forall>j<k. \<not> other_label_at label (drop j v))
        \<and> r = clean_text (Some (take k v)))"
  proof
    assume "\<exists>n\<le>length ?t. (\<exists>v. label_at label (drop n ?t) = Some v
              \<and> r = clean_text (Some (cut_before (other_label_at label) v)))
           \<and> (\<forall>m<n. label_at label (drop m ?t) = None)"
    then obtain n v where n: "n \<le> length ?t" "label_at label (drop n ?t) = Some v"
        "r = clean_text (Some (cut_before (other_label_at label) v))"
        "\<forall>m<n. label_at label (drop m ?t) = None" by (elim exE conjE)
    from cut_before_position_ex [of v "other_label_at label"]
    obtain k where k: "k \<le> length v" "k = length v \<or> other_label_at label (drop k v)"
        "\<forall>j<k. \<not> other_label_at label (drop j v)"
        "cut_before (other_label_at label) v = take k v" by (elim exE conjE)
    from n(3) k(4) have "r = clean_text (Some (take k v))" by simp
    with n(1,2,4) k(1,2,3) show "\<exists>n v k. n \<le> length ?t \<and> label_at label (drop n ?t) = Some v
        \<and> (\<forall>m<n. label_at label (drop m ?t) = None)
        \<and> k \<le> length v
        \<and> (k = length v \<or> other_label_at label (drop k v))
        \<and> (\<forall>j<k. \<not> other_label_at label (drop j v))
        \<and> r = clean_text (Some (take k v))"
      by (intro exI [of _ n] exI [of _ v] exI [of _ k] conjI)
  next
    assume "\<exists>n v k. n \<le> length ?t \<and> label_at label (drop n ?t) = Some v
        \<and> (\<forall>m<n. label_at label (drop m ?t) = None)
        \<and> k \<le> length v
        \<and> (k = length v \<or> other_label_at label (drop k v))
        \<and> (\<forall>j<k. \<not> other_label_at label (drop j v))
        \<and> r = clean_text (Some (take k v))"
    then obtain n v k where n: "n \<le> length ?t" "label_at label (drop n ?t) = Some v"
        "\<forall>m<n. label_at label (drop m ?t) = None"
      and k: "k \<le> length v" "k = length v \<or> other_label_at label (drop k v)"
        "\<forall>j<k. \<not> other_label_at label (drop j v)"
      and r: "r = clean_text (Some (take k v))" by (elim exE conjE)
    from k have "cut_before (other_label_at label) v = take k v" by (rule cut_before_position)
    with r have "r = clean_text (Some (cut_before (other_label_at label) v))" by simp
    with n show "\<exists>n\<le>length ?t. (\<exists>v. label_at label (drop n ?t) = Some v
              \<and> r = clean_text (Some (cut_before (other_label_at label) v)))
           \<and> (\<forall>m<n. label_at label (drop m ?t) = None)"
      by (intro exI [of _ n] exI [of _ v] conjI)
  qed
  finally show ?thesis .
qed

text \<open>
  The target \<open>Category Explanation\<close> is found at position 12 of
  \<open>Opportunity Category Explanation : foo\<close>, behind \<open>Opportunity \<close>, and returns the
  value \<open>foo\<close> of the longer label. As a stop label it stands at position 16 of the value
  \<open>see Opportunity Category Explanation: B\<close>, inside the second occurrence of the longer
  label, and ends the value there. A label that is continued by other text before the
  colon does not stand: \<open>Opportunity Category\<close> at the head of
  \<open>Opportunity Category Explanation : foo\<close>.
\<close>

theorem find_label_unanchored_witness:
  "clean_text (Some ''Opportunity Category Explanation : foo'')
     = ''Opportunity Category Explanation : foo''
   \<and> label_at ''Category Explanation'' (drop 12 ''Opportunity Category Explanation : foo'')
       = Some ''foo''
   \<and> list_all (\<lambda>m. label_at ''Category Explanation''
                 (drop m ''Opportunity Category Explanation : foo'') = None) [0..<12]
   \<and> list_all (\<lambda>j. \<not> other_label_at ''Category Explanation'' (drop j ''foo'')) [0..<3]
   \<and> find_label (clean_text (Some ''Opportunity Category Explanation : foo''))
        ''Category Explanation'' = Some ''foo''
   \<and> label_at ''Opportunity Category'' ''Opportunity Category Explanation : foo'' = None
   \<and> label_at ''Opportunity Category Explanation''
        (drop 0 ''Opportunity Category Explanation: see Opportunity Category Explanation: B'')
       = Some ''see Opportunity Category Explanation: B''
   \<and> other_label_at ''Opportunity Category Explanation''
        (drop 16 ''see Opportunity Category Explanation: B'')
   \<and> list_all (\<lambda>j. \<not> other_label_at ''Opportunity Category Explanation''
                  (drop j ''see Opportunity Category Explanation: B'')) [0..<16]
   \<and> find_label
        (clean_text (Some ''Opportunity Category Explanation: see Opportunity Category Explanation: B''))
        ''Opportunity Category Explanation'' = Some ''see Opportunity''"
proof -
  let ?t = "''Opportunity Category Explanation : foo''"
  let ?u = "''Opportunity Category Explanation: see Opportunity Category Explanation: B''"
  let ?w = "''see Opportunity Category Explanation: B''"
  have c: "clean_text (Some ?t) = ?t" by code_simp
  have a: "label_at ''Category Explanation'' (drop 12 ?t) = Some ''foo''" by code_simp
  have b: "list_all (\<lambda>m. label_at ''Category Explanation'' (drop m ?t) = None) [0..<12]"
    by code_simp
  have d: "list_all (\<lambda>j. \<not> other_label_at ''Category Explanation'' (drop j ''foo'')) [0..<3]"
    by code_simp
  have e: "''foo'' = clean_text (Some (take 3 ''foo''))" by code_simp
  have f: "find_label (clean_text (Some ?t)) ''Category Explanation'' = Some ''foo''"
    unfolding find_label_unanchored unfolding c all_less_upt
    by (intro exI [of _ "12::nat"] exI [of _ "''foo''"] exI [of _ "3::nat"] conjI disjI1
          a b d e) simp_all
  have g: "label_at ''Opportunity Category'' ?t = None" by code_simp
  have c2: "clean_text (Some ?u) = ?u" by code_simp
  have a2: "label_at ''Opportunity Category Explanation'' (drop 0 ?u) = Some ?w" by code_simp
  have b2: "list_all (\<lambda>m. label_at ''Opportunity Category Explanation'' (drop m ?u) = None)
              [0..<0]" by simp
  have s2: "other_label_at ''Opportunity Category Explanation'' (drop 16 ?w)" by code_simp
  have d2: "list_all (\<lambda>j. \<not> other_label_at ''Opportunity Category Explanation'' (drop j ?w))
              [0..<16]"
    by code_simp
  have e2: "''see Opportunity'' = clean_text (Some (take 16 ?w))" by code_simp
  have f2: "find_label (clean_text (Some ?u)) ''Opportunity Category Explanation''
      = Some ''see Opportunity''"
    unfolding find_label_unanchored unfolding c2 all_less_upt
    by (intro exI [of _ "0::nat"] exI [of _ ?w] exI [of _ "16::nat"] conjI disjI2
          a2 b2 s2 d2 e2) simp_all
  show ?thesis by (intro conjI c a b d f g a2 s2 d2 f2)
qed

text \<open>
  The claim as stated fails on both sides. As a target, \<open>Category Explanation\<close> matches
  inside \<open>Opportunity Category Explanation :\<close> and returns the value of the longer label.
  As a stop label, it matches inside a second occurrence of \<open>Opportunity Category
  Explanation:\<close> and ends the value in the middle of that occurrence, after
  \<open>Opportunity\<close>.
\<close>

theorem find_label_boundary_counterexample:
  "''Category Explanation'' \<in> set LABELS
   \<and> ''Opportunity Category Explanation'' \<in> set LABELS
   \<and> find_label ''Opportunity Category Explanation : foo'' ''Category Explanation'' = Some ''foo''
   \<and> find_label ''Opportunity Category Explanation: see Opportunity Category Explanation: B''
        ''Opportunity Category Explanation''
       = Some ''see Opportunity''"
  by code_simp

section \<open>The Date Normalizer: formats in order, and no exception\<close>

lemma py_int_err: "py_int s = Inl e \<Longrightarrow> e = ValueError"
  by (simp add: py_int_def Let_def split: if_splits)

lemma index_of_err: "index_of xs x = Inl e \<Longrightarrow> e = ValueError"
  by (induction xs arbitrary: e) (auto split: if_splits sum.splits)

lemma make_date_err: "make_date y m d = Inl e \<Longrightarrow> e = ValueError"
  by (simp add: make_date_def split: if_splits)

lemma time_re_err: "time_re fmt = Inl e \<Longrightarrow> e = ValueError"
  by (induction fmt arbitrary: e rule: time_re.induct)
     (auto split: if_splits option.splits sum.splits)

lemma found_err:
  "found_year m = Inl e \<Longrightarrow> e = ValueError"
  "found_month m = Inl e \<Longrightarrow> e = ValueError"
  "found_day m = Inl e \<Longrightarrow> e = ValueError"
  by (auto simp: found_year_def found_month_def found_day_def
      split: option.splits sum.splits dest: py_int_err index_of_err)

lemma strptime_err: "strptime s fmt = Inl e \<Longrightarrow> e = ValueError"
  unfolding strptime_def
  by (auto split: sum.splits option.splits if_splits
      dest: time_re_err found_err make_date_err)













lemma try_formats_first:
  "try_formats s fmts =
     Inr (case first_parse s fmts of
            None \<Rightarrow> s
          | Some fmt \<Rightarrow> isoformat (projr (strptime s fmt)))"
proof (induction fmts)
  case Nil
  then show ?case by (simp add: first_parse_def)
next
  case (Cons fmt fmts)
  show ?case
  proof (cases "strptime s fmt")
    case (Inl e)
    then have "e = ValueError" by (rule strptime_err)
    with Inl Cons show ?thesis by (simp add: first_parse_def)
  next
    case (Inr d)
    then show ?thesis by (simp add: first_parse_def)
  qed
qed

lemma to_iso_date_total: "\<exists>v. to_iso_date s = Inr v"
  by (cases s) (auto simp: to_iso_date_def try_formats_first)

lemma first_date_token_total: "\<exists>v. first_date_token s = Inr v"
  using to_iso_date_total
  by (cases s) (auto simp: first_date_token_def Let_def split: option.splits)


lemma to_iso_date_examples:
  "to_iso_date (Some ''08/01/2025'') = Inr (Some ''2025-08-01'')"
  "to_iso_date (Some ''August 1, 2025'') = Inr (Some ''2025-08-01'')"
  "to_iso_date (Some ''Aug 1, 2025'') = Inr (Some ''2025-08-01'')"
  "to_iso_date (Some ''2025-08-01'') = Inr (Some ''2025-08-01'')"
  "to_iso_date (Some ''02/30/2025'') = Inr (Some ''02/30/2025'')"
  "to_iso_date (Some ''on a  rolling basis'') = Inr (Some ''on a rolling basis'')"
  by code_simp+


section \<open>The Date-Token Extractor: three token shapes in priority order\<close>

text \<open>
  What \<open>first_date_token\<close> computes. An absent or empty span gives the absent result.
  Otherwise, on the cleaned span, the leftmost token of the shape "word of ASCII letters,
  space, one or two digits, comma, space, four digits" between word boundaries is
  passed to the Date Normalizer; if there is none, the leftmost token "one or two
  digits, slash, one or two digits, slash, four digits" is passed to the Date
  Normalizer; if there is none, the leftmost token "four digits, hyphen, two digits,
  hyphen, two digits" is returned verbatim; if there is none, the result is absent. The
  word of the first shape is any run of ASCII letters: the pattern does not compare it
  with the month names, and a token the Date Normalizer cannot parse is returned as it
  stands.
\<close>

lemma first_date_token_shapes:
  "first_date_token s =
     (case s of
        None \<Rightarrow> Inr None
      | Some x \<Rightarrow>
          if x = [] then Inr None
          else
            (case leftmost (date_token word_day_year) [] (clean_text (Some x)) of
               Some tok \<Rightarrow> to_iso_date (Some tok)
             | None \<Rightarrow>
                 (case leftmost (date_token slash_date) [] (clean_text (Some x)) of
                    Some tok \<Rightarrow> to_iso_date (Some tok)
                  | None \<Rightarrow> Inr (leftmost (date_token iso_date) [] (clean_text (Some x))))))"
proof (cases s)
  case None
  then show ?thesis by (simp add: first_date_token_def)
next
  case (Some x)
  let ?t = "clean_text (Some x)"
  note a = search_token [OF separated_shapes(1), of 1 ?t, folded pattern_shapes]
  note b = search_token [OF separated_shapes(2), of 1 ?t, folded pattern_shapes]
  note c = search_token [OF separated_shapes(3), of 1 ?t, folded pattern_shapes]
  have c': "(case re_search False iso_date_pattern ?t of
               Some m \<Rightarrow> Inr (group m 1) | None \<Rightarrow> Inr None)
            = (Inr (leftmost (date_token iso_date) [] ?t) :: py_exn + string option)"
    unfolding option_bridge2 [OF c, where f = Inr and z = "Inr None"]
    by (cases "leftmost (date_token iso_date) [] ?t") simp_all
  show ?thesis
    unfolding Some first_date_token_def Let_def option.case
    by (simp only: option_bridge2 [OF a, where f = to_iso_date]
        option_bridge2 [OF b, where f = to_iso_date] c')
qed

text \<open>
  The span of the specification: the first shape finds \<open>August 1, 2025\<close>, which the Date
  Normalizer turns into \<open>2025-08-01\<close>.
\<close>

lemma first_date_token_example:
  "leftmost (date_token word_day_year) []
      (clean_text (Some ''Closing on or about August 1, 2025 at 5:00 PM''))
     = Some ''August 1, 2025''
   \<and> first_date_token (Some ''Closing on or about August 1, 2025 at 5:00 PM'')
     = Inr (Some ''2025-08-01'')"
  by code_simp

text \<open>
  Claim C5 says that the first shape is a month name (full or abbreviated), a day and a
  year, and the function is documented as extracting and normalizing the first date of
  the span. The code misses the month-name check: the Date Normalizer, which does
  compare the word with the month names, fails on the token, and that failure is not
  acted on. On the span \<open>Version 2, 2024 due 08/01/2025\<close> the word \<open>Version\<close> is neither
  a full nor an abbreviated month name, and the first date of the span, by the priority
  order of the claim, is the slash date \<open>08/01/2025\<close>, which normalizes to
  \<open>2025-08-01\<close>; the code returns the token \<open>Version 2, 2024\<close>, which is no date.
\<close>

theorem first_date_token_non_month_word:
  "py_lower ''Version'' \<notin> set f_month \<union> set a_month
   \<and> leftmost (date_token slash_date) [] (clean_text (Some ''Version 2, 2024 due 08/01/2025''))
       = Some ''08/01/2025''
   \<and> to_iso_date (Some ''08/01/2025'') = Inr (Some ''2025-08-01'')
   \<and> to_iso_date (Some ''Version 2, 2024'') = Inr (Some ''Version 2, 2024'')
   \<and> first_date_token (Some ''Version 2, 2024 due 08/01/2025'') = Inr (Some ''Version 2, 2024'')"
  by code_simp

section \<open>Which extractor can raise; the record is always built\<close>

lemma build_opportunity_total: "\<exists>opp. build_opportunity url sp now1 now2 = Inr opp"
proof -
  let ?t = "page_text_of sp"
  obtain pd where pd: "first_date_token (find_label ?t ''Posted date'') = Inr pd"
    using first_date_token_total by blast
  obtain cd where cd: "first_date_token (py_or (py_or (find_label ?t ''Closing'')
                                   (find_label ?t ''Close date''))
                            (find_label ?t ''Closing date'')) = Inr cd"
    using first_date_token_total by blast
  obtain ad where ad: "first_date_token (find_label ?t ''Archive date'') = Inr ad"
    using first_date_token_total by blast
  show ?thesis
    by (simp add: build_opportunity_def Let_def pd cd ad)
qed

lemma find_label_call_str: "find_label_call (Some txt) (Some label) = Inr (find_label txt label)"
  by (simp add: find_label_call_def re_search_call_def find_label_def split: option.splits)

lemma extract_opportunity_id_call_str:
  "extract_opportunity_id_call (Some url) = Inr (extract_opportunity_id url)"
  by (simp add: extract_opportunity_id_call_def re_search_call_def extract_opportunity_id_def
        split: option.splits)

lemma find_label_call_raises:
  "find_label_call text label =
     (if label = None then Inl AttributeError
      else if text = None then Inl TypeError
      else Inr (find_label (the text) (the label)))"
  by (cases label; cases "text")
     (simp_all add: find_label_call_str, simp_all add: find_label_call_def re_search_call_def)

lemma extract_opportunity_id_call_raises:
  "extract_opportunity_id_call url =
     (if url = None then Inl TypeError else Inr (extract_opportunity_id (the url)))"
  by (cases url)
     (simp_all add: extract_opportunity_id_call_str,
      simp_all add: extract_opportunity_id_call_def re_search_call_def)

text \<open>
  Claim C9, as the code has it. The Date Normalizer and the Date-Token Extractor never
  end in an exception, on any string and on absent input: the \<open>ValueError\<close> of the
  library call is caught. The Label Extractor and the opportunity-id extraction return a
  value or the absent result on every string (malformed or empty included), and they are
  what \<open>find_label\<close> and \<open>extract_opportunity_id\<close> compute; they raise exactly when an
  argument is absent: a \<open>TypeError\<close> on an absent text or URL, an \<open>AttributeError\<close> on
  an absent label. The record assembler passes them strings only, so whatever the URL,
  the page and the clock, it returns a record.
\<close>

theorem extractors_never_raise:
  "(\<exists>v. to_iso_date s = Inr v)
   \<and> (\<exists>v. first_date_token s = Inr v)
   \<and> find_label_call (Some txt) (Some label) = Inr (find_label txt label)
   \<and> extract_opportunity_id_call (Some url) = Inr (extract_opportunity_id url)
   \<and> ((\<exists>e. find_label_call text lab = Inl e) \<longleftrightarrow> text = None \<or> lab = None)
   \<and> find_label_call None (Some label) = Inl TypeError
   \<and> find_label_call text None = Inl AttributeError
   \<and> ((\<exists>e. extract_opportunity_id_call u = Inl e) \<longleftrightarrow> u = None)
   \<and> extract_opportunity_id_call None = Inl TypeError
   \<and> (\<exists>opp. build_opportunity url sp now1 now2 = Inr opp)"
proof -
  have a: "(\<exists>e. find_label_call text lab = Inl e) \<longleftrightarrow> text = None \<or> lab = None"
    unfolding find_label_call_raises by auto
  have b: "find_label_call None (Some label) = Inl TypeError"
    unfolding find_label_call_raises by simp
  have c: "find_label_call text None = Inl AttributeError"
    unfolding find_label_call_raises by simp
  have d: "(\<exists>e. extract_opportunity_id_call u = Inl e) \<longleftrightarrow> u = None"
    unfolding extract_opportunity_id_call_raises by auto
  have e: "extract_opportunity_id_call None = Inl TypeError"
    unfolding extract_opportunity_id_call_raises by simp
  show ?thesis
    by (intro conjI to_iso_date_total first_date_token_total find_label_call_str
          extract_opportunity_id_call_str a b c d e build_opportunity_total)
qed

text \<open>
  The claim as stated fails on absent input: the Label Extractor called with an absent
  text, and the opportunity-id extraction called with an absent URL, raise a
  \<open>TypeError\<close>, while the two date functions return the absent result.
\<close>

theorem extractors_absent_input_counterexample:
  "find_label_call None (Some ''Agency'') = Inl TypeError
   \<and> extract_opportunity_id_call None = Inl TypeError
   \<and> to_iso_date None = Inr None
   \<and> first_date_token None = Inr None"
  by (simp add: find_label_call_def extract_opportunity_id_call_def re_search_call_def
        to_iso_date_def first_date_token_def)

section \<open>The cost-sharing flag\<close>

lemma cost_sharing_tag_iff:
  "''cost_sharing'' \<in> set (tags (apply_tags opp)) \<longleftrightarrow> is_cost_sharing opp = Some True"
proof -
  have "''cost_sharing'' \<notin> fst ` set TAG_RULES" using tag_names_distinct by auto
  then have "''cost_sharing'' \<notin> set (rules_loop TAG_RULES (hay_of opp) [])"
    by (auto simp: rules_loop_filter)
  then show ?thesis
    by (auto simp: apply_tags_def Let_def dedup_loop_set)
qed

lemma is_cost_sharing_apply_tags: "is_cost_sharing (apply_tags opp) = is_cost_sharing opp"
  by (simp add: apply_tags_def Let_def)

lemma is_cost_sharing_steps:
  "is_cost_sharing (set_instrument t opp) = is_cost_sharing opp"
  "is_cost_sharing (set_funding_activity t opp) = is_cost_sharing opp"
  "is_cost_sharing (set_assistance_listings t opp) = is_cost_sharing opp"
  "is_cost_sharing (set_additional_info sp opp) = is_cost_sharing opp"
  by (auto simp: set_instrument_def set_funding_activity_def set_assistance_listings_def
      set_additional_info_def Let_def split: prod.splits list.splits)

lemma is_cost_sharing_set:
  "is_cost_sharing opp = None \<Longrightarrow>
   is_cost_sharing (set_cost_sharing t opp)
     = cost_sharing_flag (find_label t ''Cost sharing or matching requirement'')"
  by (auto simp: set_cost_sharing_def cost_sharing_flag_def Let_def truthy_def or_empty_def
      startswith_prefix split: option.splits)

text \<open>
  Claim C10. The record the program builds carries, as its cost-sharing flag, the flag
  derived from the value of the label \<open>Cost sharing or matching requirement\<close> on the page
  text: absent when the label is absent or its value empty, otherwise true exactly when
  the value, stripped and lowercased, begins with \<open>y\<close>; and the tag \<open>cost_sharing\<close> is
  among the record's tags exactly when that flag is true.
\<close>

theorem cost_sharing_from_label:
  "\<exists>opp. build_opportunity url sp now1 now2 = Inr opp
     \<and> is_cost_sharing opp
         = cost_sharing_flag (find_label (page_text_of sp) ''Cost sharing or matching requirement'')
     \<and> (''cost_sharing'' \<in> set (tags opp) \<longleftrightarrow> is_cost_sharing opp = Some True)"
proof -
  let ?t = "page_text_of sp"
  obtain pd where pd: "first_date_token (find_label ?t ''Posted date'') = Inr pd"
    using first_date_token_total by blast
  obtain cd where cd: "first_date_token (py_or (py_or (find_label ?t ''Closing'')
                                   (find_label ?t ''Close date''))
                            (find_label ?t ''Closing date'')) = Inr cd"
    using first_date_token_total by blast
  obtain ad where ad: "first_date_token (find_label ?t ''Archive date'') = Inr ad"
    using first_date_token_total by blast
  show ?thesis
    by (simp add: build_opportunity_def Let_def pd cd ad cost_sharing_tag_iff
        is_cost_sharing_set is_cost_sharing_steps is_cost_sharing_apply_tags
        new_opportunity_def)
qed

text \<open>
  On a page that says \<open>Cost sharing or matching requirement: Yes\<close> the flag is true and
  the tag \<open>cost_sharing\<close> is emitted.
\<close>

theorem cost_sharing_from_label_witness:
  "find_label (page_text_of cost_sharing_page) ''Cost sharing or matching requirement''
     = Some ''Yes''
   \<and> (\<exists>opp. build_opportunity ''https://www.grants.gov/search-results-detail/1'' cost_sharing_page
             ''2025-01-01T00:00:00'' ''2025-01-01T00:00:00'' = Inr opp
        \<and> is_cost_sharing opp = Some True
        \<and> ''cost_sharing'' \<in> set (tags opp))"
proof -
  have v: "find_label (page_text_of cost_sharing_page) ''Cost sharing or matching requirement''
     = Some ''Yes''"
    by code_simp
  have f: "cost_sharing_flag (Some ''Yes'') = Some True"
    by code_simp
  from cost_sharing_from_label [of "''https://www.grants.gov/search-results-detail/1''"
      cost_sharing_page "''2025-01-01T00:00:00''" "''2025-01-01T00:00:00''"]
  obtain opp where o:
    "build_opportunity ''https://www.grants.gov/search-results-detail/1'' cost_sharing_page
             ''2025-01-01T00:00:00'' ''2025-01-01T00:00:00'' = Inr opp"
    "is_cost_sharing opp
       = cost_sharing_flag (find_label (page_text_of cost_sharing_page)
           ''Cost sharing or matching requirement'')"
    "''cost_sharing'' \<in> set (tags opp) \<longleftrightarrow> is_cost_sharing opp = Some True"
    by (elim exE conjE)
  from o(2) have t: "is_cost_sharing opp = Some True" unfolding v f .
  with o(3) have g: "''cost_sharing'' \<in> set (tags opp)" by (simp only: simp_thms)
  from o(1) t g have "\<exists>opp. build_opportunity ''https://www.grants.gov/search-results-detail/1''
             cost_sharing_page ''2025-01-01T00:00:00'' ''2025-01-01T00:00:00'' = Inr opp
        \<and> is_cost_sharing opp = Some True
        \<and> ''cost_sharing'' \<in> set (tags opp)"
    by (intro exI conjI)
  with v show ?thesis by (intro conjI)
qed

section \<open>The Link Classifier: sorted, deduplicated, independent of the order of the anchors\<close>

lemma links_loop_filter:
  "links_loop as (ext, docs) =
     (ext @ filter (\<lambda>h. prefix ''http'' h \<and> \<not> is_pdf_link h) (map link_target as),
      docs @ filter (\<lambda>h. prefix ''http'' h \<and> is_pdf_link h) (map link_target as))"
proof (induction as arbitrary: ext docs)
  case Nil
  then show ?case by simp
next
  case (Cons a as)
  have e: "link_target a = [] \<Longrightarrow> \<not> prefix ''http'' (link_target a)" by auto
  show ?case
    using e by (simp add: Cons.IH Let_def link_target_def [symmetric] startswith_prefix
      is_pdf_link_def py_in_sublist)
qed

lemma http_target_has_href: "prefix ''http'' (link_target a) \<Longrightarrow> \<exists>y. href a = Some y"
  by (cases "href a") (simp_all add: link_target_def py_strip_def)

lemma extract_links_sets:
  "set (fst (extract_links sp)) = {h \<in> http_targets (anchors sp). \<not> is_pdf_link h}"
  "set (snd (extract_links sp)) = {h \<in> http_targets (anchors sp). is_pdf_link h}"
proof -
  have "set (fst (extract_links sp))
      = {h. \<exists>a \<in> set (anchors sp). href a \<noteq> None \<and> h = link_target a \<and> prefix ''http'' h
              \<and> \<not> is_pdf_link h}"
    by (auto simp: extract_links_def links_loop_filter find_all_href_def)
  also have "\<dots> = {h \<in> http_targets (anchors sp). \<not> is_pdf_link h}"
    unfolding http_targets_def using http_target_has_href by blast
  finally show "set (fst (extract_links sp)) = {h \<in> http_targets (anchors sp). \<not> is_pdf_link h}" .
  have "set (snd (extract_links sp))
      = {h. \<exists>a \<in> set (anchors sp). href a \<noteq> None \<and> h = link_target a \<and> prefix ''http'' h
              \<and> is_pdf_link h}"
    by (auto simp: extract_links_def links_loop_filter find_all_href_def)
  also have "\<dots> = {h \<in> http_targets (anchors sp). is_pdf_link h}"
    unfolding http_targets_def using http_target_has_href by blast
  finally show "set (snd (extract_links sp)) = {h \<in> http_targets (anchors sp). is_pdf_link h}" .
qed

lemma sorted_set_props:
  "sorted (sorted_set xs)" "distinct (sorted_set xs)" "set (sorted_set xs) = set xs"
  by (simp_all add: sorted_set_def)

lemma sorted_set_cong: "set xs = set ys \<Longrightarrow> sorted_set xs = sorted_set ys"
  by (simp add: sorted_set_def sorted_list_of_set_sort_remdups [symmetric])

lemma classified_links_fst: "fst (classified_links sp) = sorted_set (fst (extract_links sp))"
  by (cases "extract_links sp") (simp add: classified_links_def)

lemma classified_links_snd: "snd (classified_links sp) = sorted_set (snd (extract_links sp))"
  by (cases "extract_links sp") (simp add: classified_links_def)

lemma classified_links_perm:
  assumes "mset (anchors sp') = mset (anchors sp)"
  shows "classified_links sp' = classified_links sp"
proof -
  have "set (anchors sp') = set (anchors sp)" using assms by (rule mset_eq_setD)
  then have h: "http_targets (anchors sp') = http_targets (anchors sp)"
    by (simp only: http_targets_def)
  have "fst (classified_links sp') = fst (classified_links sp)"
    unfolding classified_links_fst
    by (rule sorted_set_cong) (simp only: extract_links_sets h)
  moreover have "snd (classified_links sp') = snd (classified_links sp)"
    unfolding classified_links_snd
    by (rule sorted_set_cong) (simp only: extract_links_sets h)
  ultimately show ?thesis by (rule prod_eqI)
qed

text \<open>
  Claim C6, as the code has it. The pair \<open>(external links, documents)\<close> computed from
  the anchors of a page: both lists are sorted in code-point order and have no duplicates;
  the documents are exactly the trimmed targets that start with \<open>http\<close> and pass the PDF
  test, the external links exactly the other trimmed targets that start with \<open>http\<close>;
  every other target (empty, or not starting with \<open>http\<close>) is in neither list; and a
  page whose anchors are a permutation of these gives the same pair.
\<close>

theorem classified_links_sorted_sets:
  "sorted (fst (classified_links sp)) \<and> distinct (fst (classified_links sp))
   \<and> sorted (snd (classified_links sp)) \<and> distinct (snd (classified_links sp))
   \<and> set (fst (classified_links sp)) = {h \<in> http_targets (anchors sp). \<not> is_pdf_link h}
   \<and> set (snd (classified_links sp)) = {h \<in> http_targets (anchors sp). is_pdf_link h}
   \<and> (\<forall>sp'. mset (anchors sp') = mset (anchors sp)
          \<longrightarrow> classified_links sp' = classified_links sp)"
proof -
  have p: "\<forall>sp'. mset (anchors sp') = mset (anchors sp)
          \<longrightarrow> classified_links sp' = classified_links sp"
    using classified_links_perm by blast
  have a: "sorted (fst (classified_links sp))" "distinct (fst (classified_links sp))"
    "sorted (snd (classified_links sp))" "distinct (snd (classified_links sp))"
    unfolding classified_links_fst classified_links_snd by (rule sorted_set_props)+
  have b: "set (fst (classified_links sp)) = {h \<in> http_targets (anchors sp). \<not> is_pdf_link h}"
    unfolding classified_links_fst sorted_set_props(3) by (rule extract_links_sets)
  have c: "set (snd (classified_links sp)) = {h \<in> http_targets (anchors sp). is_pdf_link h}"
    unfolding classified_links_snd sorted_set_props(3) by (rule extract_links_sets)
  from a b c p show ?thesis by blast
qed

text \<open>
  The href set of the specification in two orders: the same two lists, the relative link
  dropped.
\<close>

theorem classified_links_sorted_sets_witness:
  "mset (anchors (page_of_anchors [''/relative'', ''https://a.gov/page'', ''https://a.gov/x.pdf'']))
     = mset (anchors (page_of_anchors [''https://a.gov/x.pdf'', ''https://a.gov/page'', ''/relative'']))
   \<and> classified_links (page_of_anchors [''https://a.gov/x.pdf'', ''https://a.gov/page'', ''/relative''])
     = ([''https://a.gov/page''], [''https://a.gov/x.pdf''])
   \<and> classified_links (page_of_anchors [''/relative'', ''https://a.gov/page'', ''https://a.gov/x.pdf''])
     = ([''https://a.gov/page''], [''https://a.gov/x.pdf''])"
proof -
  let ?p = "page_of_anchors [''https://a.gov/x.pdf'', ''https://a.gov/page'', ''/relative'']"
  let ?q = "page_of_anchors [''/relative'', ''https://a.gov/page'', ''https://a.gov/x.pdf'']"
  have m: "mset (anchors ?q) = mset (anchors ?p)"
    by (simp add: page_of_anchors_def add_mset_commute)
  have v: "classified_links ?p = ([''https://a.gov/page''], [''https://a.gov/x.pdf''])"
    by code_simp
  from classified_links_sorted_sets [of ?p] m have "classified_links ?q = classified_links ?p"
    by blast
  with m v show ?thesis by simp
qed

text \<open>
  The claim as stated fails on both sides: an absolute URL of another scheme that ends in
  \<open>.pdf\<close> is in neither list, and a relative reference that happens to start with
  \<open>http\<close> is kept as a document.
\<close>

theorem classified_links_absolute_counterexample:
  "is_absolute_url ''ftp://a.gov/x.pdf'' \<and> endswith (py_lower ''ftp://a.gov/x.pdf'') ''.pdf''
   \<and> classified_links (page_of_anchors [''ftp://a.gov/x.pdf'']) = ([], [])
   \<and> \<not> is_absolute_url ''httpdocs/x.pdf''
   \<and> classified_links (page_of_anchors [''httpdocs/x.pdf'']) = ([], [''httpdocs/x.pdf''])"
  by code_simp

section \<open>Pruning removes exactly the empty fields and is idempotent\<close>

lemma update_fresh_key: "k \<notin> fst ` set al \<Longrightarrow> AList.update k v al = al @ [(k, v)]"
  by (induction al) auto

lemma drop_loop_filter:
  "distinct (map fst (cleaned @ items)) \<Longrightarrow>
   drop_loop items cleaned = cleaned @ filter (\<lambda>kv. \<not> is_empty_value (snd kv)) items"
proof (induction items arbitrary: cleaned)
  case Nil
  then show ?case by simp
next
  case (Cons kv items)
  obtain k v where kv: "kv = (k, v)" by (cases kv)
  show ?case
  proof (cases "is_empty_value v")
    case True
    have "distinct (map fst (cleaned @ items))" using Cons.prems by simp
    from Cons.IH [OF this] True show ?thesis
      by (auto simp: kv is_empty_value_def)
  next
    case False
    have fresh: "k \<notin> fst ` set cleaned" using Cons.prems by (auto simp: kv)
    have d: "distinct (map fst ((cleaned @ [(k, v)]) @ items))" using Cons.prems by (simp add: kv)
    have nl: "\<not> (case v of PList xs \<Rightarrow> length xs = 0 | _ \<Rightarrow> False)"
      using False by (cases v) (auto simp: is_empty_value_def)
    from Cons.IH [OF d] False nl show ?thesis
      by (simp add: kv is_empty_value_def update_fresh_key [OF fresh])
  qed
qed

text \<open>
  Claim C7. For every record mapping (a dictionary: its keys are distinct),
  \<open>drop_empty_fields\<close> keeps, in order and unchanged, exactly the items whose value is
  neither absent, nor the empty string, nor the empty list; and pruning a pruned mapping
  changes nothing.
\<close>

theorem drop_empty_fields_prunes:
  assumes "distinct (map fst data)"
  shows "drop_empty_fields data = filter (\<lambda>kv. \<not> is_empty_value (snd kv)) data
       \<and> drop_empty_fields (drop_empty_fields data) = drop_empty_fields data"
proof -
  have one: "\<And>d. distinct (map fst d) \<Longrightarrow>
      drop_empty_fields d = filter (\<lambda>kv. \<not> is_empty_value (snd kv)) d"
    using drop_loop_filter [of "[]"] by (simp add: drop_empty_fields_def)
  have "distinct (map fst (filter (\<lambda>kv. \<not> is_empty_value (snd kv)) data))"
    using assms by (rule distinct_map_filter)
  then show ?thesis using one [OF assms] one by simp
qed

text \<open>
  The instance named in the claim: of \<open>opportunity_title = ""\<close>,
  \<open>funding_instruments = []\<close> and \<open>close_date = "2025-08-01"\<close> only \<open>close_date\<close> survives,
  and pruning the result again returns it.
\<close>

theorem drop_empty_fields_prunes_witness:
  "distinct (map fst [(''opportunity_title'', PStr ''''), (''funding_instruments'', PList []),
                      (''close_date'', PStr ''2025-08-01'')])
   \<and> drop_empty_fields [(''opportunity_title'', PStr ''''), (''funding_instruments'', PList []),
                         (''close_date'', PStr ''2025-08-01'')]
       = [(''close_date'', PStr ''2025-08-01'')]
   \<and> drop_empty_fields [(''close_date'', PStr ''2025-08-01'')] = [(''close_date'', PStr ''2025-08-01'')]"
proof -
  let ?X = "[(''opportunity_title'', PStr ''''), (''funding_instruments'', PList []),
             (''close_date'', PStr ''2025-08-01'')]"
  have d: "distinct (map fst ?X)" by simp
  note t = drop_empty_fields_prunes [OF d]
  have a: "drop_empty_fields ?X = [(''close_date'', PStr ''2025-08-01'')]"
    using t by (simp add: is_empty_value_def)
  have b: "drop_empty_fields [(''close_date'', PStr ''2025-08-01'')]
             = [(''close_date'', PStr ''2025-08-01'')]"
    using t unfolding a by simp
  show ?thesis using d a b by simp
qed

section \<open>The opportunity identifier: two patterns in order\<close>

text \<open>
  Claim C8, as the code has it. The identifier is the run of digits behind the leftmost
  \<open>/search-results-detail/\<close> that is followed by at least one digit; if there is none,
  it is the run of characters of the class \<open>[0-9a-fA-F-]\<close> (hexadecimal digits and the
  hyphen) behind the leftmost \<open>/opportunity/\<close> that is followed by at least sixteen such
  characters; if there is none either, the result is absent.
\<close>

theorem extract_opportunity_id_patterns:
  "extract_opportunity_id url =
     (case leftmost (\<lambda>_. id_after ''/search-results-detail/'' is_digit 1) [] url of
        Some g \<Rightarrow> Some g
      | None \<Rightarrow> leftmost (\<lambda>_. id_after ''/opportunity/'' is_hex_or_dash 16) [] url)"
proof -
  have a: "map_option (\<lambda>m. group m 1) (re_search False detail_pattern url)
      = map_option Some (leftmost (\<lambda>_. id_after ''/search-results-detail/'' is_digit 1) [] url)"
    unfolding detail_pattern_def by (rule search_marker_run)
  have b: "map_option (\<lambda>m. group m 1) (re_search False opportunity_pattern url)
      = map_option Some (leftmost (\<lambda>_. id_after ''/opportunity/'' is_hex_or_dash 16) [] url)"
    unfolding opportunity_pattern_def by (rule search_marker_run)
  have c: "(case re_search False opportunity_pattern url of Some m \<Rightarrow> group m 1 | None \<Rightarrow> None)
      = leftmost (\<lambda>_. id_after ''/opportunity/'' is_hex_or_dash 16) [] url"
    unfolding option_bridge [OF b] by (simp split: option.splits)
  show ?thesis
    unfolding extract_opportunity_id_def
    by (subst option.case_distrib [where h = "\<lambda>x. x"]) (simp only: option_bridge [OF a] c)
qed

text \<open>Both patterns on concrete URLs; the first pattern wins where both match.\<close>

theorem extract_opportunity_id_patterns_witness:
  "extract_opportunity_id ''https://www.grants.gov/search-results-detail/350693'' = Some ''350693''
   \<and> extract_opportunity_id ''/opportunity/0123456789abcdefABCDEF'' = Some ''0123456789abcdefABCDEF''
   \<and> extract_opportunity_id ''/opportunity/0123456789abcdef/search-results-detail/77'' = Some ''77''
   \<and> extract_opportunity_id ''/opportunity/0123456789abcde'' = None"
proof -
  have a: "leftmost (\<lambda>_. id_after ''/search-results-detail/'' is_digit 1) []
             ''https://www.grants.gov/search-results-detail/350693'' = Some ''350693''"
    by code_simp
  have b: "leftmost (\<lambda>_. id_after ''/search-results-detail/'' is_digit 1) []
             ''/opportunity/0123456789abcdefABCDEF'' = None"
          "leftmost (\<lambda>_. id_after ''/opportunity/'' is_hex_or_dash 16) []
             ''/opportunity/0123456789abcdefABCDEF'' = Some ''0123456789abcdefABCDEF''"
    by code_simp+
  have c: "leftmost (\<lambda>_. id_after ''/search-results-detail/'' is_digit 1) []
             ''/opportunity/0123456789abcdef/search-results-detail/77'' = Some ''77''"
    by code_simp
  have d: "leftmost (\<lambda>_. id_after ''/search-results-detail/'' is_digit 1) []
             ''/opportunity/0123456789abcde'' = None"
          "leftmost (\<lambda>_. id_after ''/opportunity/'' is_hex_or_dash 16) []
             ''/opportunity/0123456789abcde'' = None"
    by code_simp+
  show ?thesis
    using extract_opportunity_id_patterns [of "''https://www.grants.gov/search-results-detail/350693''"]
      extract_opportunity_id_patterns [of "''/opportunity/0123456789abcdefABCDEF''"]
      extract_opportunity_id_patterns [of "''/opportunity/0123456789abcdef/search-results-detail/77''"]
      extract_opportunity_id_patterns [of "''/opportunity/0123456789abcde''"]
    unfolding a b c d by simp
qed

text \<open>
  The claim as stated fails on an identifier with hyphens: in the URL below no
  \<open>/search-results-detail/\<close> is followed by a digit and no \<open>/opportunity/\<close> is followed
  by sixteen hexadecimal characters (the first hyphen comes after eight), so the claim's
  two patterns give the absent result; the code returns the whole hyphenated identifier.
\<close>

theorem extract_opportunity_id_hyphen_counterexample:
  "leftmost (\<lambda>_. id_after ''/search-results-detail/'' is_digit 1) []
      ''https://simpler.grants.gov/opportunity/123e4567-e89b-12d3-a456-426614174000'' = None
   \<and> leftmost (\<lambda>_. id_after ''/opportunity/'' is_hex 16) []
      ''https://simpler.grants.gov/opportunity/123e4567-e89b-12d3-a456-426614174000'' = None
   \<and> extract_opportunity_id
        ''https://simpler.grants.gov/opportunity/123e4567-e89b-12d3-a456-426614174000''
       = Some ''123e4567-e89b-12d3-a456-426614174000''"
  by code_simp

end
